theory Spec2Isabelle
  imports Complex_Main "HOL-Library.Log_Nat"
begin

section \<open>Python values used by the exporter\<close>

text \<open>
  The two modules \<^verbatim>\<open>data_process/tosvgjpg.py\<close> and \<^verbatim>\<open>data_process/to_data_json.py\<close>
  are embedded function by function. Python integers are \<^typ>\<open>int\<close>. A Python float is
  the rational number it denotes: every arithmetic result is rounded by \<open>fl\<close> to the nearest
  binary64 value (ties to the even significand, gradual underflow below \<open>2 powi - 1022\<close>), and
  a rounded result of magnitude \<open>2 ^ 1024\<close> or more stands for an infinity. The path text is
  a \<^typ>\<open>string\<close>, so its characters are the code points below 256.
\<close>

datatype py_error = OverflowError | ZeroDivisionError | TypeError

definition then_ok :: "py_error + 'a \<Rightarrow> ('a \<Rightarrow> py_error + 'b) \<Rightarrow> py_error + 'b" where
  "then_ok m f = (case m of Inl e \<Rightarrow> Inl e | Inr x \<Rightarrow> f x)"

subsection \<open>binary64 rounding\<close>

definition round_half_even :: "rat \<Rightarrow> int" where
  "round_half_even x =
     (let f = \<lfloor>x\<rfloor>; d = x - of_int f
      in if d < 1 / 2 then f else if 1 / 2 < d then f + 1 else if even f then f else f + 1)"

definition ilog2 :: "rat \<Rightarrow> int" where
  \<comment> \<open>the exponent \<open>e\<close> with \<open>2 powi e \<le> \<bar>x\<bar> < 2 powi (e + 1)\<close>, for \<open>x \<noteq> 0\<close>\<close>
  "ilog2 x =
     (let (p, q) = quotient_of \<bar>x\<bar>; e = bitlen p - bitlen q
      in if 2 powi e \<le> \<bar>x\<bar> then e else e - 1)"

definition ulp :: "rat \<Rightarrow> rat" where
  \<comment> \<open>the spacing of binary64 values around \<open>x\<close>: 53 significant bits, exponent at least \<open>- 1022\<close>\<close>
  "ulp x = 2 powi (max (ilog2 x) (- 1022) - 52)"

definition fl :: "rat \<Rightarrow> rat" where
  "fl x = (if x = 0 then 0 else of_int (round_half_even (x / ulp x)) * ulp x)"

definition is_inf :: "rat \<Rightarrow> bool" where
  "is_inf v = (2 ^ 1024 \<le> \<bar>v\<bar>)"

definition float_of_int :: "int \<Rightarrow> py_error + rat" where
  \<comment> \<open>the conversion of an \<open>int\<close> operand of a float operation\<close>
  "float_of_int n = (let v = fl (of_int n) in if is_inf v then Inl OverflowError else Inr v)"

definition int_true_div :: "int \<Rightarrow> int \<Rightarrow> py_error + rat" where
  \<comment> \<open>\<open>a / b\<close> on two ints: the correctly rounded quotient\<close>
  "int_true_div a b =
     (if b = 0 then Inl ZeroDivisionError
      else let v = fl (of_int a / of_int b) in if is_inf v then Inl OverflowError else Inr v)"

definition float_mul :: "rat \<Rightarrow> rat \<Rightarrow> rat" where
  "float_mul a b = fl (a * b)"

definition int_part :: "rat \<Rightarrow> int" where
  "int_part v = (if 0 \<le> v then \<lfloor>v\<rfloor> else \<lceil>v\<rceil>)"

definition py_int :: "rat \<Rightarrow> py_error + int" where
  \<comment> \<open>\<open>int(x)\<close> on a float: truncation towards zero\<close>
  "py_int v = (if is_inf v then Inl OverflowError else Inr (int_part v))"

definition py_round :: "rat \<Rightarrow> py_error + int" where
  \<comment> \<open>\<open>round(x)\<close> on a float, one argument: the nearest integer, ties to the even one\<close>
  "py_round v = (if is_inf v then Inl OverflowError else Inr (round_half_even v))"

subsection \<open>Decimal text\<close>

definition is_digit :: "char \<Rightarrow> bool" where
  \<comment> \<open>\<open>\d\<close> on the code points below 256\<close>
  "is_digit c = (c \<in> set ''0123456789'')"

definition is_space :: "char \<Rightarrow> bool" where
  \<comment> \<open>\<open>\s\<close> and \<open>str.strip()\<close> on the code points below 256\<close>
  "is_space c = (c \<in> set [CHR 0x09, CHR 0x0A, CHR 0x0B, CHR 0x0C, CHR 0x0D, CHR 0x1C, CHR 0x1D,
                           CHR 0x1E, CHR 0x1F, CHR 0x20, CHR 0x85, CHR 0xA0])"

definition digit_val :: "char \<Rightarrow> nat" where
  "digit_val c = of_char c - 48"

definition digits_val :: "string \<Rightarrow> nat" where
  "digits_val ds = foldl (\<lambda>n c. 10 * n + digit_val c) 0 ds"

definition digit_char :: "nat \<Rightarrow> char" where
  "digit_char d = ''0123456789'' ! d"

fun digits_of :: "nat \<Rightarrow> string" where
  "digits_of n = (if n < 10 then [digit_char n] else digits_of (n div 10) @ [digit_char (n mod 10)])"

definition py_str :: "int \<Rightarrow> string" where
  \<comment> \<open>\<open>str(n)\<close> on an int\<close>
  "py_str n = (if n < 0 then CHR ''-'' # digits_of (nat (- n)) else digits_of (nat n))"

definition split_sign :: "string \<Rightarrow> string \<Rightarrow> string \<times> string" where
  \<comment> \<open>an optional leading character out of \<open>signs\<close>\<close>
  "split_sign signs s =
     (case s of [] \<Rightarrow> ([], s) | c # r \<Rightarrow> if c \<in> set signs then ([c], r) else ([], s))"

definition split_dot :: "string \<Rightarrow> string \<times> string" where
  "split_dot s = split_sign ''.'' s"

definition split_exponent :: "string \<Rightarrow> string \<times> string" where
  \<comment> \<open>\<open>(?:e[-+]?\d+)?\<close>\<close>
  "split_exponent s =
     (case s of [] \<Rightarrow> ([], s)
      | c # r \<Rightarrow>
          if c = CHR ''e'' then
            (let (sg, r') = split_sign ''-+'' r; ds = takeWhile is_digit r'
             in if ds = [] then ([], s) else (c # sg @ ds, dropWhile is_digit r'))
          else ([], s))"

definition match_number :: "string \<Rightarrow> (string \<times> string) option" where
  \<comment> \<open>\<open>-?\d+\.?\d*(?:e[-+]?\d+)?\<close> at the start of \<open>s\<close>: the matched text and the rest\<close>
  "match_number s =
     (let (sg, r0) = split_sign ''-'' s;
          ip = takeWhile is_digit r0; r1 = dropWhile is_digit r0
      in if ip = [] then None
         else let (dot, r2) = split_dot r1;
                  fp = takeWhile is_digit r2; r3 = dropWhile is_digit r2;
                  (ex, r4) = split_exponent r3
              in Some (sg @ ip @ dot @ fp @ ex, r4))"

definition decimal_value :: "string \<Rightarrow> rat" where
  \<comment> \<open>the number a matched text denotes\<close>
  "decimal_value t =
     (let (sg, r0) = split_sign ''-'' t;
          ip = takeWhile is_digit r0; r1 = dropWhile is_digit r0;
          (dot, r2) = split_dot r1;
          fp = takeWhile is_digit r2; r3 = dropWhile is_digit r2;
          ex = (case r3 of [] \<Rightarrow> 0
                | e # r \<Rightarrow> let (es, ed) = split_sign ''-+'' r
                           in if es = ''-'' then - int (digits_val ed) else int (digits_val ed));
          m = of_nat (digits_val (ip @ fp)) * 10 powi (ex - int (length fp))
      in if sg = ''-'' then - m else m)"

definition py_float :: "string \<Rightarrow> rat" where
  \<comment> \<open>\<open>float(t)\<close> on a matched text\<close>
  "py_float t = fl (decimal_value t)"

section \<open>round_path_data\<close>

definition repl :: "string \<Rightarrow> py_error + string" where
  \<comment> \<open>\<open>str(int(round(float(m.group(0)))))\<close>\<close>
  "repl t = then_ok (py_round (py_float t)) (\<lambda>n. Inr (py_str n))"

lemma split_sign_parts: "split_sign g u = (a, u') \<Longrightarrow> u = a @ u'"
  by (cases u) (auto simp: split_sign_def split: if_splits)

lemma split_exponent_parts: "split_exponent u = (a, u') \<Longrightarrow> u = a @ u'"
proof (cases u)
  case Nil
  assume "split_exponent u = (a, u')"
  with Nil show ?thesis by (simp add: split_exponent_def)
next
  case (Cons c r)
  assume h: "split_exponent u = (a, u')"
  obtain sg r' where sg: "split_sign ''-+'' r = (sg, r')" by force
  have r: "r = sg @ takeWhile is_digit r' @ dropWhile is_digit r'"
    using split_sign_parts [OF sg] by simp
  show ?thesis
    using h Cons sg r by (auto simp: split_exponent_def Let_def split: if_splits)
qed

lemma match_number_parts:
  assumes "match_number s = Some (t, r)"
  shows "s = t @ r" and "t \<noteq> []"
proof -
  obtain sg r0 where a: "split_sign ''-'' s = (sg, r0)" by force
  obtain dot r2 where b: "split_dot (dropWhile is_digit r0) = (dot, r2)" by force
  obtain ex r4 where c: "split_exponent (dropWhile is_digit r2) = (ex, r4)" by force
  have ne: "takeWhile is_digit r0 \<noteq> []" and r: "r = r4"
    and t: "t = sg @ takeWhile is_digit r0 @ dot @ takeWhile is_digit r2 @ ex"
    using assms a b c by (auto simp: match_number_def Let_def split: if_splits)
  have "s = sg @ r0"
    by (rule split_sign_parts [OF a])
  also have "r0 = takeWhile is_digit r0 @ dropWhile is_digit r0"
    by simp
  also have "dropWhile is_digit r0 = dot @ r2"
    using b unfolding split_dot_def by (rule split_sign_parts)
  also have "r2 = takeWhile is_digit r2 @ dropWhile is_digit r2"
    by simp
  also have "dropWhile is_digit r2 = ex @ r4"
    by (rule split_exponent_parts [OF c])
  finally show "s = t @ r"
    using t r by simp
  show "t \<noteq> []"
    using t ne by simp
qed

lemma match_number_shorter:
  assumes "match_number s = Some (t, r)"
  shows "length r < length s"
proof -
  have "length s = length t + length r" and "0 < length t"
    using match_number_parts [OF assms] by (metis length_append, simp)
  then show ?thesis by simp
qed

function round_path_data :: "string \<Rightarrow> py_error + string" where
  \<comment> \<open>\<open>re.sub(pattern, repl, d_attr)\<close>: leftmost matches, left to right, never overlapping\<close>
  "round_path_data [] = Inr []"
| "round_path_data (c # cs) =
     (case match_number (c # cs) of
        None \<Rightarrow> then_ok (round_path_data cs) (\<lambda>v. Inr (c # v))
      | Some (t, r) \<Rightarrow> then_ok (repl t) (\<lambda>u. then_ok (round_path_data r) (\<lambda>v. Inr (u @ v))))"
  by pat_completeness auto
termination
  by (relation "measure length") (auto dest: match_number_shorter)

section \<open>add_space_around_commands\<close>

definition is_cmd :: "char \<Rightarrow> bool" where
  "is_cmd c = (c \<in> set ''MLHVCSQTAZmlhvcsqtaz'')"

fun space_before_cmd :: "bool \<Rightarrow> string \<Rightarrow> string" where
  \<comment> \<open>\<open>re.sub("(?<=\d)([cmds])", " \1", d_attr)\<close>; the flag says that the character before is a digit\<close>
  "space_before_cmd p [] = []"
| "space_before_cmd p (c # cs) =
     (if p \<and> is_cmd c then CHR '' '' # c # space_before_cmd (is_digit c) cs
      else c # space_before_cmd (is_digit c) cs)"

fun space_after_cmd :: "string \<Rightarrow> string" where
  \<comment> \<open>\<open>re.sub("([cmds])(?=\d)", "\1 ", d_attr)\<close>\<close>
  "space_after_cmd (c # d # cs) =
     (if is_cmd c \<and> is_digit d then c # CHR '' '' # space_after_cmd (d # cs)
      else c # space_after_cmd (d # cs))"
| "space_after_cmd cs = cs"

function collapse_spaces :: "string \<Rightarrow> string" where
  \<comment> \<open>\<open>re.sub(r"\s+", " ", d_attr)\<close>\<close>
  "collapse_spaces [] = []"
| "collapse_spaces (c # cs) =
     (if is_space c then CHR '' '' # collapse_spaces (dropWhile is_space cs)
      else c # collapse_spaces cs)"
  by pat_completeness auto
termination
  by (relation "measure length") (auto simp: less_Suc_eq_le length_dropWhile_le)

definition strip :: "string \<Rightarrow> string" where
  "strip s = rev (dropWhile is_space (rev (dropWhile is_space s)))"

definition add_space_around_commands :: "string \<Rightarrow> string" where
  "add_space_around_commands d_attr =
     strip (collapse_spaces (space_after_cmd (space_before_cmd False d_attr)))"

definition canonicalize :: "string \<Rightarrow> py_error + string" where
  \<comment> \<open>the two steps as the exporter chains them\<close>
  "canonicalize d_attr = then_ok (round_path_data d_attr) (\<lambda>d. Inr (add_space_around_commands d))"

subsection \<open>The text between the matches\<close>

text \<open>
  The matches \<^verbatim>\<open>re.sub\<close> finds in \<open>round_path_data\<close>, and the characters it copies,
  in the order of the text.
\<close>

datatype token = Number string | Other char

function path_tokens :: "string \<Rightarrow> token list" where
  "path_tokens [] = []"
| "path_tokens (c # cs) =
     (case match_number (c # cs) of
        None \<Rightarrow> Other c # path_tokens cs
      | Some (t, r) \<Rightarrow> Number t # path_tokens r)"
  by pat_completeness auto
termination
  by (relation "measure length") (auto dest: match_number_shorter)

fun token_text :: "token \<Rightarrow> string" where
  "token_text (Number t) = t"
| "token_text (Other c) = [c]"

fun no_pair :: "(char \<Rightarrow> bool) \<Rightarrow> (char \<Rightarrow> bool) \<Rightarrow> string \<Rightarrow> bool" where
  \<comment> \<open>no character with \<open>P\<close> is directly followed by one with \<open>Q\<close>\<close>
  "no_pair P Q (a # b # cs) = (\<not> (P a \<and> Q b) \<and> no_pair P Q (b # cs))"
| "no_pair P Q cs = True"

subsection \<open>Runs of number characters\<close>

text \<open>
  The characters a match of the pattern can contain, and the maximal runs of such
  characters in a text. A text is well separated when every run is one match, of finite
  float value: numbers are then apart from each other by at least one other character,
  as in the text a path pen writes.
\<close>

definition is_number_char :: "char \<Rightarrow> bool" where
  "is_number_char c = (is_digit c \<or> c \<in> set ''-+.e'')"

definition flush :: "string \<Rightarrow> string list" where
  "flush cur = (if cur = [] then [] else [cur])"

fun number_runs_from :: "string \<Rightarrow> string \<Rightarrow> string list" where
  \<comment> \<open>the first argument is the run being read\<close>
  "number_runs_from cur [] = flush cur"
| "number_runs_from cur (c # cs) =
     (if is_number_char c then number_runs_from (cur @ [c]) cs
      else flush cur @ number_runs_from [] cs)"

definition number_runs :: "string \<Rightarrow> string list" where
  "number_runs s = number_runs_from [] s"

definition well_separated :: "string \<Rightarrow> bool" where
  "well_separated s =
     list_all (\<lambda>r. match_number r = Some (r, []) \<and> \<not> is_inf (py_float r)) (number_runs s)"

fun replace_runs_from :: "(string \<Rightarrow> string) \<Rightarrow> string \<Rightarrow> string \<Rightarrow> string" where
  \<comment> \<open>the text with every run \<open>r\<close> replaced by \<open>f r\<close>\<close>
  "replace_runs_from f cur [] = concat (map f (flush cur))"
| "replace_runs_from f cur (c # cs) =
     (if is_number_char c then replace_runs_from f (cur @ [c]) cs
      else concat (map f (flush cur)) @ c # replace_runs_from f [] cs)"

section \<open>get_glyph_bounds\<close>

type_synonym bbox = "int \<times> int \<times> int \<times> int"

type_synonym pen_command = "string \<times> (int \<times> int) option list"

text \<open>
  A glyph object of the font library, as far as the exporter looks at it: \<open>boundingBox\<close> is
  the result of \<^verbatim>\<open>g.boundingBox()\<close> when the object has that attribute, \<open>bounds\<close> is
  \<^verbatim>\<open>g.bounds\<close> when the attribute exists and is not \<^verbatim>\<open>None\<close>, and \<open>outline\<close> is the
  sequence of pen calls \<^verbatim>\<open>g.draw(pen)\<close> makes, in the form \<^verbatim>\<open>RecordingPen.value\<close> keeps
  them: the name of the call and its points, in font design units, which are integers
  here. A point can be
  \<^verbatim>\<open>None\<close> (the last point of a \<^verbatim>\<open>qCurveTo\<close> on a contour without on-curve points),
  and subscripting it raises.
\<close>

record glyph =
  boundingBox :: "bbox option"
  bounds :: "bbox option"
  outline :: "pen_command list"

definition get_glyph_bounds :: "glyph \<Rightarrow> py_error + bbox" where
  "get_glyph_bounds g =
     (case boundingBox g of
        Some b \<Rightarrow> Inr b
      | None \<Rightarrow>
          (case bounds g of
             Some b \<Rightarrow> Inr b
           | None \<Rightarrow>
               (let pts = concat (map snd (outline g))
                in if None \<in> set pts then Inl TypeError
                   else let xs = map (\<lambda>p. fst (the p)) pts; ys = map (\<lambda>p. snd (the p)) pts
                        in if xs = [] \<or> ys = [] then Inr (0, 0, 0, 0)
                           else Inr (fold min (tl xs) (hd xs), fold min (tl ys) (hd ys),
                                     fold max (tl xs) (hd xs), fold max (tl ys) (hd ys)))))"

section \<open>export_svg_for_glyph_dynamic\<close>

type_synonym transform = "rat \<times> rat \<times> rat \<times> rat \<times> rat \<times> rat"

definition glyph_size :: "bbox \<Rightarrow> int \<Rightarrow> int \<times> int" where
  \<comment> \<open>lines 101 to 104: \<open>width\<close> and \<open>height\<close>\<close>
  "glyph_size bb scale_size =
     (case bb of (xmin, ymin, xmax, ymax) \<Rightarrow>
        let width = xmax - xmin; height = ymax - ymin
        in if width = 0 \<or> height = 0 then (scale_size, scale_size) else (width, height))"

definition glyph_scale :: "bbox \<Rightarrow> int \<Rightarrow> py_error + rat" where
  \<comment> \<open>line 107: \<open>scale\<close>\<close>
  "glyph_scale bb scale_size =
     (case glyph_size bb scale_size of (width, height) \<Rightarrow> int_true_div scale_size (max width height))"

definition glyph_transform :: "bbox \<Rightarrow> int \<Rightarrow> py_error + transform" where
  \<comment> \<open>lines 110 to 112: \<open>transform\<close>\<close>
  "glyph_transform bb scale_size =
     (case bb of (xmin, ymin, xmax, ymax) \<Rightarrow>
        then_ok (glyph_scale bb scale_size) (\<lambda>scale.
        then_ok (float_of_int (- xmin)) (\<lambda>nx.
        then_ok (float_of_int ymax) (\<lambda>fy.
          Inr (scale, 0, 0, - scale, float_mul nx scale, float_mul fy scale)))))"

definition scaled_size :: "bbox \<Rightarrow> int \<Rightarrow> py_error + int \<times> int" where
  \<comment> \<open>lines 126 and 127: \<open>int(width*scale)\<close> and \<open>int(height*scale)\<close>\<close>
  "scaled_size bb scale_size =
     (case glyph_size bb scale_size of (width, height) \<Rightarrow>
        then_ok (glyph_scale bb scale_size) (\<lambda>scale.
        then_ok (float_of_int width) (\<lambda>w.
        then_ok (py_int (float_mul w scale)) (\<lambda>sw.
        then_ok (float_of_int height) (\<lambda>h.
        then_ok (py_int (float_mul h scale)) (\<lambda>sh. Inr (sw, sh)))))))"

text \<open>
  The path pens belong to the font library. \<^verbatim>\<open>SVGPathPen\<close> keeps a list of command
  texts, empty at first; every pen call that reaches it through \<^verbatim>\<open>TransformPen\<close> updates
  the list and the pen's own state, and \<^verbatim>\<open>getCommands()\<close> joins the list. What one call
  does is the parameter \<open>pen_call\<close>, the pen's first state is \<open>pen_init\<close>.
\<close>

definition getCommands ::
  "(transform \<Rightarrow> pen_command \<Rightarrow> 's \<times> string list \<Rightarrow> 's \<times> string list) \<Rightarrow> 's \<Rightarrow>
     transform \<Rightarrow> pen_command list \<Rightarrow> string" where
  "getCommands pen_call pen_init t prog = concat (snd (fold (pen_call t) prog (pen_init, [])))"

record svg_document =
  viewBox_width :: int
  viewBox_height :: int
  svg_width :: int
  svg_height :: int
  path_d :: string

definition export_svg_for_glyph_dynamic ::
  "(transform \<Rightarrow> pen_command \<Rightarrow> 's \<times> string list \<Rightarrow> 's \<times> string list) \<Rightarrow> 's \<Rightarrow>
     glyph \<Rightarrow> int \<Rightarrow> py_error + svg_document" where
  "export_svg_for_glyph_dynamic pen_call pen_init g scale_size =
     then_ok (get_glyph_bounds g) (\<lambda>bb.
     then_ok (glyph_transform bb scale_size) (\<lambda>transform.
     then_ok (round_path_data (strip (getCommands pen_call pen_init transform (outline g)))) (\<lambda>d1.
       let d2 = add_space_around_commands d1;
           d_attr = (if d2 = [] then ''M0 0'' else d2)
       in then_ok (scaled_size bb scale_size) (\<lambda>(sw, sh).
            Inr \<lparr>viewBox_width = sw, viewBox_height = sh, svg_width = sw, svg_height = sh,
                 path_d = d_attr\<rparr>))))"

section \<open>safe_name_for_file\<close>

text \<open>
  A character is its code point, a file name a list of code points. The tables of the
  Unicode database are parameters: \<open>category\<close> is \<^verbatim>\<open>unicodedata.category\<close> and \<open>isspace\<close>
  is \<^verbatim>\<open>str.isspace\<close> on one character.
\<close>

definition bad_chars :: "nat list" where
  \<comment> \<open>the character class \<^verbatim>\<open>[/\\:*?"<>|]\<close>\<close>
  "bad_chars = map of_char (''/:*?<>|'' @ [CHR 0x5C, CHR 0x22])"

definition hex_char :: "nat \<Rightarrow> char" where
  "hex_char d = ''0123456789ABCDEF'' ! d"

fun hex_of :: "nat \<Rightarrow> string" where
  "hex_of n = (if n < 16 then [hex_char n] else hex_of (n div 16) @ [hex_char (n mod 16)])"

definition format_04X :: "nat \<Rightarrow> string" where
  \<comment> \<open>\<^verbatim>\<open>f"{cp:04X}"\<close>\<close>
  "format_04X cp = (let h = hex_of cp in replicate (4 - length h) CHR ''0'' @ h)"

definition safe_name_for_file :: "(nat \<Rightarrow> string) \<Rightarrow> (nat \<Rightarrow> bool) \<Rightarrow> nat \<Rightarrow> nat \<Rightarrow> nat list" where
  \<comment> \<open>\<^verbatim>\<open>tosvgjpg.py\<close>\<close>
  "safe_name_for_file category isspace char cp =
     (if char \<in> set bad_chars then map of_char (''U+'' @ format_04X cp)
      else if take 1 (category char) = ''C'' \<or> isspace char
           then map of_char (''U+'' @ format_04X cp)
           else [char])"

definition safe_name_for_file_json ::
  "(nat \<Rightarrow> string) \<Rightarrow> (nat \<Rightarrow> bool) \<Rightarrow> nat \<Rightarrow> nat option \<Rightarrow> nat list" where
  \<comment> \<open>\<^verbatim>\<open>to_data_json.py\<close>; \<open>ord(char)\<close> is \<open>char\<close> itself\<close>
  "safe_name_for_file_json category isspace char cp_arg =
     (let cp = (case cp_arg of None \<Rightarrow> char | Some c \<Rightarrow> c)
      in if char \<in> set bad_chars then map of_char (''U+'' @ format_04X cp)
         else if take 1 (category char) = ''C'' \<or> isspace char
              then map of_char (''U+'' @ format_04X cp)
              else [char])"

definition hex_digit_val :: "char \<Rightarrow> nat" where
  \<comment> \<open>reading a hexadecimal digit back\<close>
  "hex_digit_val c = (if is_digit c then of_char c - 48 else of_char c - 55)"

definition hex_val :: "string \<Rightarrow> nat" where
  "hex_val ds = foldl (\<lambda>n c. 16 * n + hex_digit_val c) 0 ds"

declare hex_of.simps [simp del] digits_of.simps [simp del] round_path_data.simps [simp del]
  path_tokens.simps [simp del]

section \<open>Results and errors\<close>

lemma round_path_data_Nil [simp]: "round_path_data [] = Inr []"
  by (simp add: round_path_data.simps)

lemma then_ok_Inr [simp]: "then_ok (Inr x) f = f x"
  by (simp add: then_ok_def)

lemma then_ok_Inl [simp]: "then_ok (Inl e) f = Inl e"
  by (simp add: then_ok_def)

lemma then_ok_eq_Inr: "then_ok m f = Inr y \<longleftrightarrow> (\<exists>x. m = Inr x \<and> f x = Inr y)"
  by (cases m) simp_all


section \<open>Character classes and the decimal text of integers\<close>

lemma cmd_not_digit: "is_cmd c \<Longrightarrow> \<not> is_digit c"
  by (auto simp: is_cmd_def is_digit_def)

lemma cmd_not_space: "is_cmd c \<Longrightarrow> \<not> is_space c"
  by (auto simp: is_cmd_def is_space_def)

lemma digit_not_space: "is_digit c \<Longrightarrow> \<not> is_space c"
  by (auto simp: is_digit_def is_space_def)

lemma blank_class [simp]:
  "is_space CHR '' ''" "\<not> is_digit CHR '' ''" "\<not> is_cmd CHR '' ''"
  by (simp_all add: is_space_def is_digit_def is_cmd_def)

lemma digit_char_range: "d < 10 \<Longrightarrow> digit_char d \<in> set ''0123456789''"
  unfolding digit_char_def by (rule nth_mem) simp

lemma digits_of_range: "set (digits_of n) \<subseteq> set ''0123456789''"
proof (induction n rule: digits_of.induct)
  case (1 n)
  show ?case
  proof (cases "n < 10")
    case True
    then show ?thesis
      using digit_char_range [of n] by (subst digits_of.simps) simp
  next
    case False
    then show ?thesis
      using "1.IH" digit_char_range [of "n mod 10"] by (subst digits_of.simps) simp
  qed
qed

lemma py_str_range: "set (py_str n) \<subseteq> set ''-0123456789''"
proof -
  have D: "set (digits_of k) \<subseteq> set ''-0123456789''" for k
    by (rule order_trans [OF digits_of_range set_subset_Cons])
  have M: "CHR ''-'' \<in> set ''-0123456789''"
    by simp
  show ?thesis
  proof (cases "n < 0")
    case True
    then have "set (py_str n) = insert CHR ''-'' (set (digits_of (nat (- n))))"
      by (simp add: py_str_def)
    then show ?thesis
      using D M by (simp only: insert_subset)
  next
    case False
    then have "py_str n = digits_of (nat n)"
      by (simp add: py_str_def)
    then show ?thesis
      using D by (simp only:)
  qed
qed

lemma repl_InrD:
  assumes "repl t = Inr u"
  shows "u = py_str (round_half_even (py_float t))" and "\<not> is_inf (py_float t)"
  using assms by (auto simp: repl_def py_round_def then_ok_eq_Inr split: if_splits)


section \<open>Rounding to the nearest integer\<close>

lemma rhe_unfold:
  obtains f where "of_int f \<le> x" "x < of_int f + 1"
    "round_half_even x = (if x - of_int f < 1 / 2 then f else if 1 / 2 < x - of_int f then f + 1
                          else if even f then f else f + 1)"
proof -
  have "of_int \<lfloor>x\<rfloor> \<le> x" "x < of_int \<lfloor>x\<rfloor> + 1"
    by linarith+
  moreover have "round_half_even x =
      (if x - of_int \<lfloor>x\<rfloor> < 1 / 2 then \<lfloor>x\<rfloor> else if 1 / 2 < x - of_int \<lfloor>x\<rfloor> then \<lfloor>x\<rfloor> + 1
       else if even \<lfloor>x\<rfloor> then \<lfloor>x\<rfloor> else \<lfloor>x\<rfloor> + 1)"
    by (simp add: round_half_even_def Let_def)
  ultimately show ?thesis
    using that by blast
qed

lemma rhe_err: "\<bar>of_int (round_half_even x) - x\<bar> \<le> 1 / 2"
proof -
  obtain f where "of_int f \<le> x" "x < of_int f + 1"
    "round_half_even x = (if x - of_int f < 1 / 2 then f else if 1 / 2 < x - of_int f then f + 1
                          else if even f then f else f + 1)"
    by (rule rhe_unfold)
  then show ?thesis
    by (auto simp: abs_if split: if_splits)
qed

lemma rhe_tie: "\<bar>of_int (round_half_even x) - x\<bar> = 1 / 2 \<Longrightarrow> even (round_half_even x)"
proof -
  assume h: "\<bar>of_int (round_half_even x) - x\<bar> = 1 / 2"
  obtain f where "of_int f \<le> x" "x < of_int f + 1"
    "round_half_even x = (if x - of_int f < 1 / 2 then f else if 1 / 2 < x - of_int f then f + 1
                          else if even f then f else f + 1)"
    by (rule rhe_unfold)
  with h show ?thesis
    by (auto simp: abs_if split: if_splits)
qed

lemma rhe_eqI:
  assumes "\<bar>of_int n - x\<bar> \<le> 1 / 2" and "\<bar>of_int n - x\<bar> = 1 / 2 \<Longrightarrow> even n"
  shows "round_half_even x = n"
proof (rule ccontr)
  let ?m = "round_half_even x"
  assume ne: "?m \<noteq> n"
  have m: "\<bar>of_int ?m - x\<bar> \<le> 1 / 2"
    by (rule rhe_err)
  have "\<bar>(of_int ?m :: rat) - of_int n\<bar> \<le> 1"
    using m assms(1) by linarith
  then have "\<bar>?m - n\<bar> \<le> 1"
    by (metis of_int_1 of_int_abs of_int_diff of_int_le_iff)
  with ne have d: "?m = n + 1 \<or> ?m = n - 1"
    by linarith
  then have "\<bar>of_int ?m - x\<bar> = 1 / 2 \<and> \<bar>of_int n - x\<bar> = 1 / 2"
    using m assms(1) by (auto simp: abs_if split: if_splits)
  then have "even ?m" "even n"
    using rhe_tie assms(2) by blast+
  with d show False by auto
qed

lemma rhe_of_int [simp]: "round_half_even (of_int n) = n"
  by (rule rhe_eqI) simp_all

lemma rhe_neg: "round_half_even (- x) = - round_half_even x"
proof (rule rhe_eqI)
  show "\<bar>of_int (- round_half_even x) - - x\<bar> \<le> 1 / 2"
    using rhe_err [of x] by (simp add: abs_if split: if_splits)
  assume "\<bar>of_int (- round_half_even x) - - x\<bar> = 1 / 2"
  then have "\<bar>of_int (round_half_even x) - x\<bar> = 1 / 2"
    by (simp add: abs_if split: if_splits)
  then show "even (- round_half_even x)"
    using rhe_tie by simp
qed

lemma rhe_mono:
  assumes "x \<le> y"
  shows "round_half_even x \<le> round_half_even y"
proof (rule ccontr)
  let ?m = "round_half_even x" and ?n = "round_half_even y"
  assume "\<not> ?m \<le> ?n"
  then have "?n + 1 \<le> ?m" by simp
  then have 1: "(of_int ?n :: rat) + 1 \<le> of_int ?m"
    by (metis of_int_1 of_int_add of_int_le_iff)
  have 2: "of_int ?m - 1 / 2 \<le> x" "y \<le> of_int ?n + 1 / 2"
    using rhe_err [of x] rhe_err [of y] by (simp_all add: abs_if split: if_splits)
  with 1 assms have "x = y" by linarith
  with \<open>\<not> ?m \<le> ?n\<close> show False by simp
qed

lemma rhe_nonneg: "0 \<le> x \<Longrightarrow> 0 \<le> round_half_even x"
  using rhe_mono [of 0 x] rhe_of_int [of 0] by simp

lemma rhe_le_int: "x \<le> of_int n \<Longrightarrow> round_half_even x \<le> n"
  using rhe_mono [of x "of_int n"] by simp

lemma rhe_ge_int: "of_int n \<le> x \<Longrightarrow> n \<le> round_half_even x"
  using rhe_mono [of "of_int n" x] by simp

section \<open>Properties of binary64 rounding\<close>

lemma two_powi_of_nat: "0 \<le> n \<Longrightarrow> (2::rat) powi n = of_int (2 ^ nat n)"
  by (simp add: power_int_nonneg_exp)

lemma ilog2_bounds:
  assumes "x \<noteq> 0"
  shows "2 powi (ilog2 x) \<le> \<bar>x\<bar>" and "\<bar>x\<bar> < 2 powi (ilog2 x + 1)"
proof -
  obtain p q where pq: "quotient_of \<bar>x\<bar> = (p, q)" by force
  have q: "0 < q"
    using quotient_of_denom_pos [OF pq] .
  have x: "\<bar>x\<bar> = of_int p / of_int q"
    using quotient_of_div [OF pq] .
  have "0 < \<bar>x\<bar>"
    using assms by simp
  then have p: "0 < p"
    using q unfolding x by (simp add: zero_less_divide_iff)
  define bp where "bp = bitlen p"
  define bq where "bq = bitlen q"
  have bp1: "1 \<le> bp" and bq1: "1 \<le> bq"
    using p q bitlen_eq_zero_iff [of p] bitlen_eq_zero_iff [of q] bitlen_nonneg [of p]
      bitlen_nonneg [of q]
    unfolding bp_def bq_def by linarith+
  have "2 ^ nat (bp - 1) \<le> p" "p < 2 ^ nat bp" "2 ^ nat (bq - 1) \<le> q" "q < 2 ^ nat bq"
    using bitlen_bounds [OF p] bitlen_bounds [OF q] unfolding bp_def bq_def by simp_all
  then have P: "(2::rat) powi (bp - 1) \<le> of_int p" "of_int p < (2::rat) powi bp"
    and Q: "(2::rat) powi (bq - 1) \<le> of_int q" "of_int q < (2::rat) powi bq"
    using bp1 bq1 by (simp_all add: two_powi_of_nat del: of_int_power)
  have lo: "(2::rat) powi (bp - bq - 1) < \<bar>x\<bar>"
  proof -
    have "(2::rat) powi (bp - bq - 1) = 2 powi (bp - 1) / 2 powi bq"
      by (simp add: power_int_diff [symmetric] algebra_simps)
    also have "\<dots> < of_int p / of_int q"
      using P(1) Q(2) q by (intro frac_less2) simp_all
    finally show ?thesis by (simp add: x)
  qed
  have hi: "\<bar>x\<bar> < (2::rat) powi (bp - bq + 1)"
  proof -
    have "of_int p / of_int q < (2::rat) powi bp / 2 powi (bq - 1)"
      using P(2) Q(1) p by (intro frac_less) simp_all
    also have "\<dots> = 2 powi (bp - bq + 1)"
      by (simp add: power_int_diff [symmetric] algebra_simps)
    finally show ?thesis by (simp add: x)
  qed
  have i: "ilog2 x = (if 2 powi (bp - bq) \<le> \<bar>x\<bar> then bp - bq else bp - bq - 1)"
    by (simp add: ilog2_def pq bp_def bq_def Let_def)
  show "2 powi (ilog2 x) \<le> \<bar>x\<bar>"
    using lo by (simp add: i)
  show "\<bar>x\<bar> < 2 powi (ilog2 x + 1)"
    using hi by (auto simp: i)
qed

lemma two_powi_less_cancel: "(2::rat) powi a < 2 powi b \<Longrightarrow> a < b"
proof (rule ccontr)
  assume "(2::rat) powi a < 2 powi b" "\<not> a < b"
  then show False
    using power_int_increasing [of b a "2::rat"] by simp
qed

lemma ilog2_unique:
  assumes "2 powi e \<le> \<bar>x\<bar>" and "\<bar>x\<bar> < 2 powi (e + 1)"
  shows "ilog2 x = e"
proof -
  have "(0::rat) < 2 powi e" by simp
  with assms(1) have "0 < \<bar>x\<bar>" by linarith
  then have nz: "x \<noteq> 0" by simp
  have "(2::rat) powi (ilog2 x) < 2 powi (e + 1)"
    using ilog2_bounds(1) [OF nz] assms(2) by linarith
  moreover have "(2::rat) powi e < 2 powi (ilog2 x + 1)"
    using ilog2_bounds(2) [OF nz] assms(1) by linarith
  ultimately show ?thesis
    using two_powi_less_cancel [of "ilog2 x" "e + 1"] two_powi_less_cancel [of e "ilog2 x + 1"]
    by linarith
qed

lemma ilog2_minus [simp]: "ilog2 (- x) = ilog2 x"
  by (simp add: ilog2_def)

lemma ulp_minus [simp]: "ulp (- x) = ulp x"
  by (simp add: ulp_def)

lemma ulp_pos [simp]: "0 < ulp x"
  by (simp add: ulp_def)

lemma ulp_nonneg [simp]: "0 \<le> ulp x"
  by (simp add: ulp_def)

lemma fl_zero [simp]: "fl 0 = 0"
  by (simp add: fl_def)

lemma fl_neg: "fl (- x) = - fl x"
  by (simp add: fl_def rhe_neg)

lemma fl_exact:
  assumes "x / ulp x = of_int m"
  shows "fl x = x"
proof (cases "x = 0")
  case True
  then show ?thesis by simp
next
  case False
  have "fl x = of_int m * ulp x"
    using False by (simp add: fl_def assms)
  also have "\<dots> = x"
    using assms ulp_pos [of x] by (simp add: field_simps)
  finally show ?thesis .
qed

lemma ulp_scaled_less:
  assumes "x \<noteq> 0"
  shows "\<bar>x\<bar> / ulp x < 2 ^ 53"
proof -
  define E where "E = max (ilog2 x) (- 1022)"
  have "\<bar>x\<bar> < 2 powi (ilog2 x + 1)"
    by (rule ilog2_bounds(2) [OF assms])
  also have "\<dots> \<le> 2 powi (E + 1)"
    by (rule power_int_increasing) (simp_all add: E_def)
  also have "\<dots> = 2 ^ 53 * ulp x"
    by (simp add: ulp_def E_def [symmetric] power_int_add power_int_diff)
  finally show ?thesis
    by (simp add: pos_divide_less_eq)
qed

lemma ulp_scaled_ge:
  assumes "x \<noteq> 0" and "- 1022 \<le> ilog2 x"
  shows "2 ^ 52 \<le> \<bar>x\<bar> / ulp x"
proof -
  have u: "ulp x = 2 powi (ilog2 x - 52)"
    using assms(2) by (simp add: ulp_def max_def)
  have "2 ^ 52 * ulp x = 2 powi (ilog2 x)"
    by (simp add: u power_int_diff)
  also have "\<dots> \<le> \<bar>x\<bar>"
    by (rule ilog2_bounds(1) [OF assms(1)])
  finally show ?thesis
    by (simp add: pos_le_divide_eq)
qed

lemma fl_nonneg:
  assumes "0 \<le> x"
  shows "0 \<le> fl x"
proof -
  have "0 \<le> x / ulp x"
    using assms by simp
  then have "0 \<le> round_half_even (x / ulp x)"
    by (rule rhe_nonneg)
  then show ?thesis
    by (simp add: fl_def)
qed

lemma fl_pos_upper:
  assumes "0 < x"
  shows "fl x \<le> 2 powi (max (ilog2 x) (- 1022) + 1)"
proof -
  have "x / ulp x \<le> of_int (2 ^ 53)"
    using ulp_scaled_less [of x] assms by simp
  then have "round_half_even (x / ulp x) \<le> 2 ^ 53"
    by (rule rhe_le_int)
  then have "(of_int (round_half_even (x / ulp x)) :: rat) \<le> 2 ^ 53"
    by (metis of_int_le_iff of_int_numeral of_int_power)
  then have "fl x \<le> 2 ^ 53 * ulp x"
    using assms by (simp add: fl_def)
  also have "\<dots> = 2 powi (max (ilog2 x) (- 1022) + 1)"
    by (simp add: ulp_def power_int_add power_int_diff)
  finally show ?thesis .
qed

lemma fl_pos_lower:
  assumes "0 < x" and "- 1022 \<le> ilog2 x"
  shows "2 powi (ilog2 x) \<le> fl x"
proof -
  have "of_int (2 ^ 52) \<le> x / ulp x"
    using ulp_scaled_ge [of x] assms by simp
  then have "2 ^ 52 \<le> round_half_even (x / ulp x)"
    by (rule rhe_ge_int)
  then have "(2 ^ 52 :: rat) \<le> of_int (round_half_even (x / ulp x))"
    by (metis of_int_le_iff of_int_numeral of_int_power)
  then have "2 ^ 52 * ulp x \<le> fl x"
    using assms by (simp add: fl_def)
  moreover have "2 ^ 52 * ulp x = 2 powi (ilog2 x)"
    using assms(2) by (simp add: ulp_def max_def power_int_diff)
  ultimately show ?thesis by simp
qed

lemma ilog2_mono_pos:
  assumes "0 < x" and "x \<le> y"
  shows "ilog2 x \<le> ilog2 y"
proof -
  have "2 powi (ilog2 x) \<le> \<bar>x\<bar>" "\<bar>y\<bar> < 2 powi (ilog2 y + 1)"
    using ilog2_bounds [of x] ilog2_bounds [of y] assms by auto
  then have "(2::rat) powi (ilog2 x) < 2 powi (ilog2 y + 1)"
    using assms by linarith
  then show ?thesis
    using two_powi_less_cancel by fastforce
qed

lemma fl_mono_pos:
  assumes "0 < x" and "x \<le> y"
  shows "fl x \<le> fl y"
proof -
  define Ex where "Ex = max (ilog2 x) (- 1022)"
  define Ey where "Ey = max (ilog2 y) (- 1022)"
  have le: "Ex \<le> Ey"
    using ilog2_mono_pos [OF assms] by (simp add: Ex_def Ey_def)
  show ?thesis
  proof (cases "Ex = Ey")
    case True
    then have u: "ulp x = ulp y"
      by (simp add: ulp_def Ex_def Ey_def)
    have "x / ulp y \<le> y / ulp y"
      using assms(2) ulp_pos [of y] by (simp add: divide_right_mono)
    then have "round_half_even (x / ulp y) \<le> round_half_even (y / ulp y)"
      by (rule rhe_mono)
    then have "(of_int (round_half_even (x / ulp y)) :: rat) * ulp y
        \<le> of_int (round_half_even (y / ulp y)) * ulp y"
      using ulp_pos [of y] by (simp add: mult_right_mono)
    then show ?thesis
      using assms by (simp add: fl_def u)
  next
    case False
    with le have lt: "Ex < Ey" by simp
    then have n: "- 1022 \<le> ilog2 y" and Ey: "Ey = ilog2 y"
      by (auto simp: Ex_def Ey_def max_def split: if_splits)
    have "fl x \<le> 2 powi (Ex + 1)"
      unfolding Ex_def by (rule fl_pos_upper [OF assms(1)])
    also have "\<dots> \<le> 2 powi Ey"
      by (rule power_int_increasing) (use lt in simp_all)
    also have "\<dots> \<le> fl y"
      unfolding Ey using assms n by (intro fl_pos_lower) simp_all
    finally show ?thesis .
  qed
qed

lemma fl_mono:
  assumes "x \<le> y"
  shows "fl x \<le> fl y"
proof -
  consider "0 < x" | "x \<le> 0" "0 \<le> y" | "y < 0"
    using assms by linarith
  then show ?thesis
  proof cases
    case 1
    then show ?thesis using assms by (rule fl_mono_pos)
  next
    case 2
    have "fl x \<le> 0"
      using fl_nonneg [of "- x"] 2(1) by (simp add: fl_neg)
    also have "0 \<le> fl y"
      using 2(2) by (rule fl_nonneg)
    finally show ?thesis .
  next
    case 3
    have "fl (- y) \<le> fl (- x)"
      using 3 assms by (intro fl_mono_pos) simp_all
    then show ?thesis
      by (simp add: fl_neg)
  qed
qed

subsection \<open>Values a float holds exactly, and the rounding error\<close>

lemma ulp_nonzero [simp]: "ulp x \<noteq> 0"
  using ulp_pos [of x] by linarith

lemma fl_representable_pos:
  assumes "0 < k" and "k \<le> 2 ^ 53" and "- 1074 \<le> j"
  shows "fl (of_int k * 2 powi j) = of_int k * 2 powi j"
proof -
  define x :: rat where "x = of_int k * 2 powi j"
  have xpos: "0 < x"
    using assms(1) by (simp add: x_def)
  define E where "E = max (ilog2 x) (- 1022)"
  have u: "ulp x = 2 powi (E - 52)"
    by (simp add: ulp_def E_def)
  show ?thesis
  proof (cases "E - 52 \<le> j")
    case True
    have "x / ulp x = of_int k * (2 powi j / 2 powi (E - 52))"
      unfolding u by (simp add: x_def)
    also have "2 powi j / 2 powi (E - 52) = (2::rat) powi (j - (E - 52))"
      by (simp add: power_int_diff)
    also have "\<dots> = of_int (2 ^ nat (j - (E - 52)))"
      using True by (simp add: two_powi_of_nat)
    finally have "x / ulp x = of_int (k * 2 ^ nat (j - (E - 52)))"
      by simp
    then show ?thesis
      unfolding x_def [symmetric] by (rule fl_exact)
  next
    case False
    then have EE: "E = ilog2 x"
      using assms(3) by (auto simp: E_def max_def split: if_splits)
    have "2 powi E \<le> \<bar>x\<bar>"
      unfolding EE using xpos by (intro ilog2_bounds(1)) simp
    also have "\<bar>x\<bar> = of_int k * 2 powi j"
      using xpos by (simp add: x_def)
    also have "\<dots> \<le> of_int (2 ^ 53) * 2 powi j"
      using assms(2) by (intro mult_right_mono) simp_all
    also have "\<dots> = 2 powi (53 + j)"
      by (simp add: power_int_add)
    finally have le: "(2::rat) powi E \<le> 2 powi (53 + j)" .
    have "E \<le> 53 + j"
    proof (rule ccontr)
      assume "\<not> E \<le> 53 + j"
      then have "(2::rat) powi (53 + j) < 2 powi E"
        by (intro power_int_strict_increasing) simp_all
      with le show False by simp
    qed
    with False have Ej: "E = 53 + j" by simp
    have "(2::rat) powi (53 + j) \<le> of_int k * 2 powi j"
      using \<open>2 powi E \<le> \<bar>x\<bar>\<close> xpos unfolding Ej by (simp add: x_def)
    then have "(2 ^ 53 :: rat) * 2 powi j \<le> of_int k * 2 powi j"
      by (simp add: power_int_add)
    then have "(2 ^ 53 :: rat) \<le> of_int k"
      by simp
    then have "(of_int (2 ^ 53) :: rat) \<le> of_int k"
      by simp
    then have "2 ^ 53 \<le> k"
      by (simp only: of_int_le_iff)
    with assms(2) have k: "k = 2 ^ 53" by simp
    have "x / ulp x = 2 ^ 53 * 2 powi j / 2 powi (1 + j)"
      unfolding u Ej by (simp add: x_def k)
    also have "\<dots> = of_int (2 ^ 52)"
      by (simp add: power_int_add)
    finally show ?thesis
      unfolding x_def [symmetric] by (rule fl_exact)
  qed
qed

lemma fl_representable:
  assumes "\<bar>k\<bar> \<le> 2 ^ 53" and "- 1074 \<le> j"
  shows "fl (of_int k * 2 powi j) = of_int k * 2 powi j"
proof -
  consider "k = 0" | "0 < k" | "k < 0" by linarith
  then show ?thesis
  proof cases
    case 1
    then show ?thesis by simp
  next
    case 2
    then show ?thesis
      using assms by (intro fl_representable_pos) simp_all
  next
    case 3
    then have "fl (of_int (- k) * 2 powi j) = of_int (- k) * 2 powi j"
      using assms by (intro fl_representable_pos) simp_all
    then show ?thesis
      using fl_neg [of "of_int k * 2 powi j"] by simp
  qed
qed

lemma fl_of_int:
  assumes "\<bar>k\<bar> \<le> 2 ^ 53"
  shows "fl (of_int k) = of_int k"
  using fl_representable [OF assms, of 0] by simp

lemma fl_abs_le:
  assumes "\<bar>x\<bar> \<le> of_int k * 2 powi j" and "\<bar>k\<bar> \<le> 2 ^ 53" and "- 1074 \<le> j"
  shows "\<bar>fl x\<bar> \<le> of_int k * 2 powi j"
proof -
  let ?b = "of_int k * 2 powi j :: rat"
  have b: "fl ?b = ?b"
    by (rule fl_representable [OF assms(2,3)])
  have "fl x \<le> fl ?b" "fl (- ?b) \<le> fl x"
    using assms(1) by (intro fl_mono; linarith)+
  then show ?thesis
    by (simp add: fl_neg b abs_le_iff)
qed

lemma fl_form:
  obtains m j where "fl x = of_int m * 2 powi j" and "\<bar>m\<bar> \<le> 2 ^ 53" and "- 1074 \<le> j"
proof (cases "x = 0")
  case True
  have "fl x = of_int 0 * 2 powi 0" "\<bar>0::int\<bar> \<le> 2 ^ 53" "- 1074 \<le> (0::int)"
    using True by simp_all
  then show ?thesis using that by blast
next
  case False
  define m where "m = round_half_even (x / ulp x)"
  have "\<bar>x / ulp x\<bar> = \<bar>x\<bar> / ulp x"
    by simp
  then have "\<bar>x / ulp x\<bar> \<le> 2 ^ 53"
    using ulp_scaled_less [OF False] by linarith
  then have "x / ulp x \<le> 2 ^ 53" "- (2 ^ 53) \<le> x / ulp x"
    using abs_ge_self [of "x / ulp x"] abs_ge_minus_self [of "x / ulp x"] by linarith+
  then have "x / ulp x \<le> of_int (2 ^ 53)" "of_int (- (2 ^ 53)) \<le> x / ulp x"
    by simp_all
  then have "m \<le> 2 ^ 53" "- (2 ^ 53) \<le> m"
    unfolding m_def using rhe_le_int rhe_ge_int by blast+
  then have "\<bar>m\<bar> \<le> 2 ^ 53" by simp
  moreover have "fl x = of_int m * 2 powi (max (ilog2 x) (- 1022) - 52)"
    using False by (simp add: fl_def m_def ulp_def)
  moreover have "- 1074 \<le> max (ilog2 x) (- 1022) - 52"
    by simp
  ultimately show ?thesis using that by blast
qed

lemma fl_idem: "fl (fl x) = fl x"
proof -
  obtain m j where "fl x = of_int m * 2 powi j" "\<bar>m\<bar> \<le> 2 ^ 53" "- 1074 \<le> j"
    by (rule fl_form)
  then show ?thesis
    by (simp add: fl_representable)
qed

lemma fl_relerr:
  assumes "2 powi (- 1022) \<le> \<bar>x\<bar>"
  shows "\<bar>fl x - x\<bar> \<le> \<bar>x\<bar> / 2 ^ 53"
proof -
  have "(0::rat) < 2 powi (- 1022)" by simp
  with assms have "0 < \<bar>x\<bar>" by linarith
  then have nz: "x \<noteq> 0" by simp
  have "(2::rat) powi (- 1022) < 2 powi (ilog2 x + 1)"
    using assms ilog2_bounds(2) [OF nz] by linarith
  then have n: "- 1022 \<le> ilog2 x"
    using two_powi_less_cancel by fastforce
  then have u: "ulp x = 2 powi (ilog2 x - 52)"
    by (simp add: ulp_def max_def)
  have "fl x - x = (of_int (round_half_even (x / ulp x)) - x / ulp x) * ulp x"
    using nz by (simp add: fl_def algebra_simps)
  then have "\<bar>fl x - x\<bar> = \<bar>of_int (round_half_even (x / ulp x)) - x / ulp x\<bar> * ulp x"
    by (simp add: abs_mult)
  also have "\<dots> \<le> 1 / 2 * ulp x"
    by (intro mult_right_mono rhe_err) simp
  also have "\<dots> = 2 powi (ilog2 x) / 2 ^ 53"
    by (simp add: u power_int_diff)
  also have "\<dots> \<le> \<bar>x\<bar> / 2 ^ 53"
    by (intro divide_right_mono ilog2_bounds(1) [OF nz]) simp
  finally show ?thesis .
qed

lemma rhe_fl_cases:
  "of_int (round_half_even (fl x)) = fl x \<or> \<bar>round_half_even (fl x)\<bar> \<le> 2 ^ 53"
proof -
  obtain m j where f: "fl x = of_int m * 2 powi j" and m: "\<bar>m\<bar> \<le> 2 ^ 53" and j: "- 1074 \<le> j"
    by (rule fl_form)
  show ?thesis
  proof (cases "0 \<le> j")
    case True
    define n where "n = m * 2 ^ nat j"
    have "fl x = of_int n"
      using True by (simp add: f n_def two_powi_of_nat)
    then have "of_int (round_half_even (fl x)) = fl x"
      by (simp only: rhe_of_int)
    then show ?thesis by blast
  next
    case False
    then have "(2::rat) powi j \<le> 2 powi 0"
      by (intro power_int_increasing) simp_all
    then have "\<bar>fl x\<bar> \<le> \<bar>of_int m\<bar> * 1"
      unfolding f abs_mult by (intro mult_left_mono) simp_all
    also have "\<dots> \<le> of_int (2 ^ 53)"
      using m by (simp only: mult_1_right of_int_abs [symmetric] of_int_le_iff)
    finally have "fl x \<le> of_int (2 ^ 53)" "of_int (- (2 ^ 53)) \<le> fl x"
      by (simp_all add: abs_le_iff)
    then have "round_half_even (fl x) \<le> 2 ^ 53" "- (2 ^ 53) \<le> round_half_even (fl x)"
      using rhe_le_int rhe_ge_int by blast+
    then have "\<bar>round_half_even (fl x)\<bar> \<le> 2 ^ 53"
      by simp
    then show ?thesis by blast
  qed
qed

lemma rhe_fl_representable:
  "fl (of_int (round_half_even (fl x))) = of_int (round_half_even (fl x))"
  using rhe_fl_cases [of x]
proof
  assume "of_int (round_half_even (fl x)) = fl x"
  then show ?thesis
    by (simp add: fl_idem)
next
  assume "\<bar>round_half_even (fl x)\<bar> \<le> 2 ^ 53"
  then show ?thesis
    by (rule fl_of_int)
qed

lemma not_inf_small:
  assumes "\<bar>v\<bar> \<le> 2 ^ 106"
  shows "\<not> is_inf v"
proof -
  have "(2::rat) ^ 106 < 2 ^ 1024"
    by (rule power_strict_increasing) simp_all
  with assms show ?thesis
    by (simp add: is_inf_def)
qed

lemma fl_abs_le_pow:
  assumes "\<bar>x\<bar> \<le> 2 ^ n"
  shows "\<bar>fl x\<bar> \<le> 2 ^ n"
  using fl_abs_le [of x 1 "int n"] assms by simp


section \<open>The transform and the canvas\<close>

lemma float_of_int_small:
  assumes "\<bar>n\<bar> \<le> 2 ^ 53"
  shows "float_of_int n = Inr (of_int n)"
proof -
  have "\<bar>of_int n :: rat\<bar> \<le> 2 ^ 53"
    using assms by (metis of_int_abs of_int_le_iff of_int_numeral of_int_power)
  also have "(2::rat) ^ 53 \<le> 2 ^ 106"
    by (rule power_increasing) simp_all
  finally have "\<not> is_inf (of_int n)"
    by (rule not_inf_small)
  then show ?thesis
    by (simp add: float_of_int_def fl_of_int [OF assms])
qed

lemma int_true_div_small:
  assumes "b \<noteq> 0" and "\<bar>a\<bar> \<le> 2 ^ 53"
  shows "int_true_div a b = Inr (fl (of_int a / of_int b))"
proof -
  have "1 \<le> \<bar>b\<bar>"
    using assms(1) by linarith
  then have "(of_int 1 :: rat) \<le> of_int \<bar>b\<bar>"
    by (simp only: of_int_le_iff)
  then have B: "(1::rat) \<le> \<bar>of_int b\<bar>"
    by simp
  have "\<bar>of_int a / of_int b :: rat\<bar> = \<bar>of_int a\<bar> / \<bar>of_int b\<bar>"
    by (rule abs_divide)
  also have "\<dots> \<le> \<bar>of_int a\<bar> / 1"
    using B by (intro divide_left_mono) simp_all
  also have "\<dots> = \<bar>of_int a\<bar>"
    by simp
  also have "\<dots> \<le> 2 ^ 53"
    using assms(2) by (metis of_int_abs of_int_le_iff of_int_numeral of_int_power)
  finally have "\<bar>fl (of_int a / of_int b)\<bar> \<le> 2 ^ 53"
    by (rule fl_abs_le_pow)
  also have "(2::rat) ^ 53 \<le> 2 ^ 106"
    by (rule power_increasing) simp_all
  finally have "\<not> is_inf (fl (of_int a / of_int b))"
    by (rule not_inf_small)
  then show ?thesis
    using assms(1) by (simp add: int_true_div_def)
qed

lemma export_InrD:
  assumes "export_svg_for_glyph_dynamic pen_call pen_init g S = Inr doc"
  obtains bb tr d1 where "get_glyph_bounds g = Inr bb" and "glyph_transform bb S = Inr tr"
    and "round_path_data (strip (getCommands pen_call pen_init tr (outline g))) = Inr d1"
    and "scaled_size bb S = Inr (svg_width doc, svg_height doc)"
    and "viewBox_width doc = svg_width doc" and "viewBox_height doc = svg_height doc"
    and "path_d doc = (if add_space_around_commands d1 = [] then ''M0 0''
                      else add_space_around_commands d1)"
  using assms unfolding export_svg_for_glyph_dynamic_def
  by (auto simp: then_ok_eq_Inr Let_def)

lemma scaled_size_InrD:
  assumes "scaled_size bb S = Inr (sw, sh)"
  obtains scale where "glyph_scale bb S = Inr scale"
    and "sw = int_part (fl (fl (of_int (fst (glyph_size bb S))) * scale))"
    and "sh = int_part (fl (fl (of_int (snd (glyph_size bb S))) * scale))"
proof -
  obtain w h where wh: "glyph_size bb S = (w, h)" by force
  from assms obtain scale fw fh where "glyph_scale bb S = Inr scale"
    and "float_of_int w = Inr fw" "py_int (float_mul fw scale) = Inr sw"
    and "float_of_int h = Inr fh" "py_int (float_mul fh scale) = Inr sh"
    unfolding scaled_size_def wh by (auto simp: then_ok_eq_Inr)
  then show ?thesis
    using that [of scale] wh
    by (auto simp: float_of_int_def py_int_def float_mul_def Let_def split: if_splits)
qed

lemma add_space_empty [simp]: "add_space_around_commands [] = []"
  by (simp add: add_space_around_commands_def strip_def)

lemma getCommands_empty [simp]: "getCommands pen_call pen_init t [] = []"
  by (simp add: getCommands_def)

lemma strip_empty [simp]: "strip [] = []"
  by (simp add: strip_def)


subsection \<open>The coefficients of the transform\<close>

lemma int_part_of_int [simp]: "int_part (of_int n) = n"
  by (simp add: int_part_def)

lemma int_part_err: "\<bar>of_int (int_part v)\<bar> \<le> \<bar>v\<bar> \<and> \<bar>v - of_int (int_part v)\<bar> < 1"
proof (cases "0 \<le> v")
  case True
  define f where "f = \<lfloor>v\<rfloor>"
  have "0 \<le> f"
    using True by (simp add: f_def)
  then have 0: "(0::rat) \<le> of_int f"
    by simp
  have 1: "of_int f \<le> v" "v < of_int f + 1"
    unfolding f_def by linarith+
  have "int_part v = f"
    using True by (simp add: int_part_def f_def)
  then show ?thesis
    using 0 1 True by (simp only:) linarith
next
  case False
  define c where "c = \<lceil>v\<rceil>"
  have "c \<le> 0"
    using False by (simp add: c_def ceiling_le_iff)
  then have 0: "(of_int c :: rat) \<le> 0"
    by simp
  have 1: "v \<le> of_int c" "of_int c < v + 1"
    unfolding c_def by linarith+
  have "int_part v = c"
    using False by (simp add: int_part_def c_def)
  then show ?thesis
    using 0 1 False by (simp only:) linarith
qed

lemma glyph_size_cases:
  "glyph_size (xmin, ymin, xmax, ymax) S =
     (if xmax - xmin = 0 \<or> ymax - ymin = 0 then (S, S) else (xmax - xmin, ymax - ymin))"
  by (simp add: glyph_size_def Let_def)

lemma glyph_scale_small:
  assumes "glyph_size bb S = (w, h)" and "max w h \<noteq> 0" and "\<bar>S\<bar> \<le> 2 ^ 53"
  shows "glyph_scale bb S = Inr (fl (of_int S / of_int (max w h)))"
  using assms by (simp add: glyph_scale_def int_true_div_small)

lemma glyph_transform_small:
  assumes "glyph_size (xmin, ymin, xmax, ymax) S = (w, h)" and "max w h \<noteq> 0"
    and "\<bar>S\<bar> \<le> 2 ^ 53" and "\<bar>xmin\<bar> \<le> 2 ^ 53" and "\<bar>ymax\<bar> \<le> 2 ^ 53"
  shows "glyph_transform (xmin, ymin, xmax, ymax) S =
     Inr (fl (of_int S / of_int (max w h)), 0, 0, - fl (of_int S / of_int (max w h)),
          fl (of_int (- xmin) * fl (of_int S / of_int (max w h))),
          fl (of_int ymax * fl (of_int S / of_int (max w h))))"
proof -
  have "float_of_int (- xmin) = Inr (of_int (- xmin))" "float_of_int ymax = Inr (of_int ymax)"
    using assms(4,5) by (simp_all add: float_of_int_small)
  then show ?thesis
    using glyph_scale_small [OF assms(1,2,3)]
    by (simp add: glyph_transform_def float_mul_def)
qed

lemma scale_abs_le:
  assumes "b \<noteq> 0" and "\<bar>a\<bar> \<le> 2 ^ 53"
  shows "\<bar>fl (of_int a / of_int b)\<bar> \<le> 2 ^ 53"
proof -
  have "1 \<le> \<bar>b\<bar>"
    using assms(1) by linarith
  then have "(of_int 1 :: rat) \<le> of_int \<bar>b\<bar>"
    by (simp only: of_int_le_iff)
  then have B: "(1::rat) \<le> \<bar>of_int b\<bar>"
    by simp
  have "\<bar>of_int a / of_int b :: rat\<bar> = \<bar>of_int a\<bar> / \<bar>of_int b\<bar>"
    by (rule abs_divide)
  also have "\<dots> \<le> \<bar>of_int a\<bar> / 1"
    using B by (intro divide_left_mono) simp_all
  also have "\<dots> = \<bar>of_int a\<bar>"
    by simp
  also have "\<dots> \<le> 2 ^ 53"
    using assms(2) by (metis of_int_abs of_int_le_iff of_int_numeral of_int_power)
  finally show ?thesis
    by (rule fl_abs_le_pow)
qed

lemma scaled_product_finite:
  assumes "\<bar>w\<bar> \<le> 2 ^ 53" and "\<bar>sc\<bar> \<le> 2 ^ 53"
  shows "\<not> is_inf (fl (of_int w * sc))"
proof -
  have "\<bar>of_int w :: rat\<bar> \<le> 2 ^ 53"
    using assms(1) by (metis of_int_abs of_int_le_iff of_int_numeral of_int_power)
  then have "\<bar>of_int w\<bar> * \<bar>sc\<bar> \<le> 2 ^ 53 * 2 ^ 53"
    using assms(2) by (intro mult_mono) simp_all
  then have "\<bar>of_int w * sc\<bar> \<le> 2 ^ 106"
    by (simp add: abs_mult)
  then have "\<bar>fl (of_int w * sc)\<bar> \<le> 2 ^ 106"
    by (rule fl_abs_le_pow)
  then show ?thesis
    by (rule not_inf_small)
qed

lemma scaled_size_small:
  assumes "glyph_size bb S = (w, h)" and "max w h \<noteq> 0" and "\<bar>S\<bar> \<le> 2 ^ 53"
    and "\<bar>w\<bar> \<le> 2 ^ 53" and "\<bar>h\<bar> \<le> 2 ^ 53"
  shows "scaled_size bb S =
     Inr (int_part (fl (of_int w * fl (of_int S / of_int (max w h)))),
          int_part (fl (of_int h * fl (of_int S / of_int (max w h)))))"
proof -
  let ?sc = "fl (of_int S / of_int (max w h))"
  have sc: "\<bar>?sc\<bar> \<le> 2 ^ 53"
    using assms(2,3) by (rule scale_abs_le)
  have "\<not> is_inf (fl (of_int w * ?sc))" "\<not> is_inf (fl (of_int h * ?sc))"
    using assms(4,5) sc by (simp_all add: scaled_product_finite)
  then show ?thesis
    using glyph_scale_small [OF assms(1,2,3)] assms(1,4,5)
    by (simp add: scaled_size_def float_of_int_small py_int_def float_mul_def)
qed

lemma scenario_A_values:
  "fl (200 * fl (128 / 25)) = 1024" "fl (100 * fl (128 / 25)) = 512"
  by code_simp+

lemma scenario_A_transform:
  "glyph_transform (0, 0, 100, 200) 1024 = Inr (fl (512 / 100), 0, 0, - fl (512 / 100), 0, 1024)"
proof -
  have A: "glyph_size (0, 0, 100, 200) 1024 = (100, 200)"
    by (simp add: glyph_size_cases)
  show ?thesis
    using glyph_transform_small [OF A] by (simp add: scenario_A_values)
qed

lemma scenario_A_size: "scaled_size (0, 0, 100, 200) 1024 = Inr (512, 1024)"
proof -
  have A: "glyph_size (0, 0, 100, 200) 1024 = (100, 200)"
    by (simp add: glyph_size_cases)
  show ?thesis
    using scaled_size_small [OF A] scenario_A_values
    by (simp add: int_part_of_int [of 512, simplified] int_part_of_int [of 1024, simplified])
qed

lemma export_with_transform:
  assumes "get_glyph_bounds g = Inr bb" and "glyph_transform bb S = Inr t"
  shows "export_svg_for_glyph_dynamic pen_call pen_init g S =
     then_ok (round_path_data (strip (getCommands pen_call pen_init t (outline g))))
       (\<lambda>d1. then_ok (scaled_size bb S)
          (\<lambda>(sw, sh). Inr \<lparr>viewBox_width = sw, viewBox_height = sh, svg_width = sw,
                            svg_height = sh,
                            path_d = (if add_space_around_commands d1 = [] then ''M0 0''
                                      else add_space_around_commands d1)\<rparr>))"
  using assms by (simp add: export_svg_for_glyph_dynamic_def Let_def)

text \<open>
  C1. With \<open>width\<close> and \<open>height\<close> the sides of the bounding box, both replaced by the
  canvas size \<open>S\<close> when either is zero, \<open>export_svg_for_glyph_dynamic\<close> draws the glyph
  through the transform \<open>(scale, 0, 0, - scale, - xmin * scale, ymax * scale)\<close> with
  \<open>scale = S / max width height\<close>, every operation a float operation: the path data of
  the document are what the pens write under this transform. For a glyph with the box
  \<open>(0, 0, 100, 200)\<close> and \<open>S = 1024\<close> the scale is the float \<open>5.12\<close>, \<open>e\<close> is \<open>0\<close>, \<open>f\<close> is
  \<open>1024\<close>, and the document says 512 by 1024, whatever the outline and the pens are. The
  integers are taken in the range that a float holds exactly.
\<close>

theorem transform_coefficients:
  assumes "get_glyph_bounds g = Inr (xmin, ymin, xmax, ymax)"
    and "\<bar>xmin\<bar> \<le> 2 ^ 53" and "\<bar>ymax\<bar> \<le> 2 ^ 53" and "0 < S" and "S \<le> 2 ^ 53"
    and "glyph_size (xmin, ymin, xmax, ymax) S = (w, h)"
  shows "(w, h) = (if xmax - xmin = 0 \<or> ymax - ymin = 0 then (S, S)
                   else (xmax - xmin, ymax - ymin))
    \<and> glyph_scale (xmin, ymin, xmax, ymax) S = Inr (fl (of_int S / of_int (max w h)))
    \<and> glyph_transform (xmin, ymin, xmax, ymax) S =
        Inr (fl (of_int S / of_int (max w h)), 0, 0, - fl (of_int S / of_int (max w h)),
             fl (of_int (- xmin) * fl (of_int S / of_int (max w h))),
             fl (of_int ymax * fl (of_int S / of_int (max w h))))
    \<and> export_svg_for_glyph_dynamic pen_call pen_init g S =
        then_ok (round_path_data (strip (getCommands pen_call pen_init
                   (fl (of_int S / of_int (max w h)), 0, 0, - fl (of_int S / of_int (max w h)),
                    fl (of_int (- xmin) * fl (of_int S / of_int (max w h))),
                    fl (of_int ymax * fl (of_int S / of_int (max w h))))
                   (outline g))))
          (\<lambda>d1. then_ok (scaled_size (xmin, ymin, xmax, ymax) S)
             (\<lambda>(sw, sh). Inr \<lparr>viewBox_width = sw, viewBox_height = sh, svg_width = sw,
                               svg_height = sh,
                               path_d = (if add_space_around_commands d1 = [] then ''M0 0''
                                         else add_space_around_commands d1)\<rparr>))
    \<and> glyph_transform (0, 0, 100, 200) 1024 = Inr (fl (512 / 100), 0, 0, - fl (512 / 100), 0, 1024)
    \<and> scaled_size (0, 0, 100, 200) 1024 = Inr (512, 1024)
    \<and> export_svg_for_glyph_dynamic pen_call pen_init
          \<lparr>boundingBox = Some (0, 0, 100, 200), bounds = other, outline = prog\<rparr> 1024 =
        then_ok (round_path_data (strip (getCommands pen_call pen_init
                   (fl (512 / 100), 0, 0, - fl (512 / 100), 0, 1024) prog)))
          (\<lambda>d1. Inr \<lparr>viewBox_width = 512, viewBox_height = 1024, svg_width = 512,
                       svg_height = 1024,
                       path_d = (if add_space_around_commands d1 = [] then ''M0 0''
                                 else add_space_around_commands d1)\<rparr>)"
proof -
  have wh: "(w, h) = (if xmax - xmin = 0 \<or> ymax - ymin = 0 then (S, S)
                      else (xmax - xmin, ymax - ymin))"
    using assms(6) by (simp add: glyph_size_cases)
  have m: "max w h \<noteq> 0"
    using wh assms(4) by (auto split: if_splits)
  have S: "\<bar>S\<bar> \<le> 2 ^ 53"
    using assms(4,5) by simp
  have sc: "glyph_scale (xmin, ymin, xmax, ymax) S = Inr (fl (of_int S / of_int (max w h)))"
    by (rule glyph_scale_small [OF assms(6) m S])
  have tr: "glyph_transform (xmin, ymin, xmax, ymax) S =
        Inr (fl (of_int S / of_int (max w h)), 0, 0, - fl (of_int S / of_int (max w h)),
             fl (of_int (- xmin) * fl (of_int S / of_int (max w h))),
             fl (of_int ymax * fl (of_int S / of_int (max w h))))"
    by (rule glyph_transform_small [OF assms(6) m S assms(2,3)])
  have ex: "export_svg_for_glyph_dynamic pen_call pen_init g S =
        then_ok (round_path_data (strip (getCommands pen_call pen_init
                   (fl (of_int S / of_int (max w h)), 0, 0, - fl (of_int S / of_int (max w h)),
                    fl (of_int (- xmin) * fl (of_int S / of_int (max w h))),
                    fl (of_int ymax * fl (of_int S / of_int (max w h))))
                   (outline g))))
          (\<lambda>d1. then_ok (scaled_size (xmin, ymin, xmax, ymax) S)
             (\<lambda>(sw, sh). Inr \<lparr>viewBox_width = sw, viewBox_height = sh, svg_width = sw,
                               svg_height = sh,
                               path_d = (if add_space_around_commands d1 = [] then ''M0 0''
                                         else add_space_around_commands d1)\<rparr>))"
    by (rule export_with_transform [OF assms(1) tr])
  have b: "get_glyph_bounds \<lparr>boundingBox = Some (0, 0, 100, 200), bounds = other, outline = prog\<rparr>
      = Inr (0, 0, 100, 200)"
    by (simp add: get_glyph_bounds_def)
  have exA: "export_svg_for_glyph_dynamic pen_call pen_init
          \<lparr>boundingBox = Some (0, 0, 100, 200), bounds = other, outline = prog\<rparr> 1024 =
        then_ok (round_path_data (strip (getCommands pen_call pen_init
                   (fl (512 / 100), 0, 0, - fl (512 / 100), 0, 1024) prog)))
          (\<lambda>d1. Inr \<lparr>viewBox_width = 512, viewBox_height = 1024, svg_width = 512,
                       svg_height = 1024,
                       path_d = (if add_space_around_commands d1 = [] then ''M0 0''
                                 else add_space_around_commands d1)\<rparr>)"
    unfolding export_with_transform [OF b scenario_A_transform] scenario_A_size by simp
  show ?thesis
    using wh sc tr ex scenario_A_transform scenario_A_size exA by (intro conjI)
qed

lemma scenario_square_value: "int_part (fl (100 * fl (1024 / 100))) = 1024"
  by code_simp

theorem transform_coefficients_witness:
  "glyph_transform (10, - 20, 110, 80) 1024 =
     Inr (fl (1024 / 100), 0, 0, - fl (1024 / 100), fl (- 10 * fl (1024 / 100)),
          fl (80 * fl (1024 / 100)))
   \<and> export_svg_for_glyph_dynamic (\<lambda>t c s. s) ()
        \<lparr>boundingBox = Some (10, - 20, 110, 80), bounds = None, outline = []\<rparr> 1024 =
      Inr \<lparr>viewBox_width = 1024, viewBox_height = 1024, svg_width = 1024, svg_height = 1024,
           path_d = ''M0 0''\<rparr>"
proof -
  have b: "get_glyph_bounds \<lparr>boundingBox = Some (10, - 20, 110, 80), bounds = None, outline = []\<rparr>
      = Inr (10, - 20, 110, 80)"
    by (simp add: get_glyph_bounds_def)
  have g: "glyph_size (10, - 20, 110, 80) 1024 = (100, 100)"
    by (simp add: glyph_size_cases)
  have z: "scaled_size (10, - 20, 110, 80) 1024 = Inr (1024, 1024)"
    using scaled_size_small [OF g] scenario_square_value by simp
  show ?thesis
    using transform_coefficients [OF b _ _ _ _ g, of "\<lambda>t c s. s" "()"] z
    by simp
qed

subsection \<open>Empty glyphs, and how the canvas size becomes an integer\<close>

text \<open>
  C4. A glyph without a precomputed box whose outline sends nothing to the pen gets the
  box \<open>(0, 0, 0, 0)\<close>, and the exported document has width and height \<open>S\<close> (the view
  box too) and the path data \<open>M0 0\<close>, for a canvas size \<open>S\<close> that a float holds exactly.
\<close>

theorem empty_glyph_document:
  assumes "boundingBox g = None" and "bounds g = None" and "outline g = []"
    and "0 < S" and "S \<le> 2 ^ 53"
  shows "get_glyph_bounds g = Inr (0, 0, 0, 0)
    \<and> export_svg_for_glyph_dynamic pen_call pen_init g S =
        Inr \<lparr>viewBox_width = S, viewBox_height = S, svg_width = S, svg_height = S,
             path_d = ''M0 0''\<rparr>"
proof -
  have b: "get_glyph_bounds g = Inr (0, 0, 0, 0)"
    using assms(1,2,3) by (simp add: get_glyph_bounds_def)
  have s: "glyph_size (0, 0, 0, 0) S = (S, S)"
    by (simp add: glyph_size_cases)
  have S: "\<bar>S\<bar> \<le> 2 ^ 53" "max S S \<noteq> 0"
    using assms(4,5) by simp_all
  have one: "fl 1 = 1"
    using fl_of_int [of 1] by simp
  have t: "glyph_transform (0, 0, 0, 0) S = Inr (1, 0, 0, - 1, 0, 0)"
    using glyph_transform_small [OF s S(2,1)] assms(4) by (simp add: one)
  have z: "scaled_size (0, 0, 0, 0) S = Inr (S, S)"
    using scaled_size_small [OF s S(2,1) S(1) S(1)] assms(4)
    by (simp add: one fl_of_int [OF S(1)])
  show ?thesis
    using b t z assms(3) by (simp add: export_svg_for_glyph_dynamic_def)
qed

theorem empty_glyph_document_witness:
  "export_svg_for_glyph_dynamic (\<lambda>t c s. s) ()
     \<lparr>boundingBox = None, bounds = None, outline = []\<rparr> 1024 =
   Inr \<lparr>viewBox_width = 1024, viewBox_height = 1024, svg_width = 1024, svg_height = 1024,
        path_d = ''M0 0''\<rparr>"
  using empty_glyph_document
    [of "\<lparr>boundingBox = None, bounds = None, outline = []\<rparr>" 1024 "\<lambda>t c s. s" "()"]
  by simp

lemma scenario_37_values:
  "int_part (fl (3 * fl (1024 / 7))) = 438" "int_part (fl (7 * fl (1024 / 7))) = 1024"
  "round_half_even (fl (3 * fl (1024 / 7))) = 439"
  by code_simp+

text \<open>
  C8, as the claim states it, fails: for the box \<open>(0, 0, 3, 7)\<close> and the canvas size 1024
  the scaled width is about 438.86; the document gets 438, rounding gives 439.
\<close>

theorem canvas_rounded_counterexample:
  "scaled_size (0, 0, 3, 7) 1024 = Inr (438, 1024)
   \<and> round_half_even (fl (3 * fl (1024 / 7))) = 439"
proof -
  have s: "glyph_size (0, 0, 3, 7) 1024 = (3, 7)"
    by (simp add: glyph_size_cases)
  show ?thesis
    using scaled_size_small [OF s] by (simp add: scenario_37_values)
qed

text \<open>
  C8, amended. The width and height written into the view box and into the \<open>width\<close> and
  \<open>height\<close> attributes are the float products \<open>width * scale\<close> and \<open>height * scale\<close>
  truncated towards zero by \<open>int()\<close>: the written integer is never larger in magnitude
  than the product and is less than one away from it.
\<close>

theorem canvas_truncated:
  assumes "export_svg_for_glyph_dynamic pen_call pen_init g S = Inr doc"
  shows "\<exists>bb scale sw sh.
      get_glyph_bounds g = Inr bb \<and> glyph_scale bb S = Inr scale
      \<and> sw = fl (fl (of_int (fst (glyph_size bb S))) * scale)
      \<and> sh = fl (fl (of_int (snd (glyph_size bb S))) * scale)
      \<and> svg_width doc = int_part sw \<and> svg_height doc = int_part sh
      \<and> viewBox_width doc = svg_width doc \<and> viewBox_height doc = svg_height doc
      \<and> \<bar>of_int (svg_width doc)\<bar> \<le> \<bar>sw\<bar> \<and> \<bar>sw - of_int (svg_width doc)\<bar> < 1
      \<and> \<bar>of_int (svg_height doc)\<bar> \<le> \<bar>sh\<bar> \<and> \<bar>sh - of_int (svg_height doc)\<bar> < 1"
proof -
  from assms obtain bb where bb: "get_glyph_bounds g = Inr bb"
    and sz: "scaled_size bb S = Inr (svg_width doc, svg_height doc)"
    and vb: "viewBox_width doc = svg_width doc" "viewBox_height doc = svg_height doc"
    by (rule export_InrD)
  from sz obtain scale where sc: "glyph_scale bb S = Inr scale"
    and w: "svg_width doc = int_part (fl (fl (of_int (fst (glyph_size bb S))) * scale))"
    and h: "svg_height doc = int_part (fl (fl (of_int (snd (glyph_size bb S))) * scale))"
    by (rule scaled_size_InrD)
  show ?thesis
    using bb sc vb int_part_err [of "fl (fl (of_int (fst (glyph_size bb S))) * scale)"]
      int_part_err [of "fl (fl (of_int (snd (glyph_size bb S))) * scale)"]
    unfolding w h by blast
qed

lemma scenario_37_export:
  "export_svg_for_glyph_dynamic (\<lambda>t c s. s) ()
     \<lparr>boundingBox = Some (0, 0, 3, 7), bounds = None, outline = []\<rparr> 1024 =
   Inr \<lparr>viewBox_width = 438, viewBox_height = 1024, svg_width = 438, svg_height = 1024,
        path_d = ''M0 0''\<rparr>"
proof -
  have s: "glyph_size (0, 0, 3, 7) 1024 = (3, 7)"
    by (simp add: glyph_size_cases)
  have "scaled_size (0, 0, 3, 7) 1024 = Inr (438, 1024)"
    using scaled_size_small [OF s] by (simp add: scenario_37_values)
  moreover have "\<exists>t. glyph_transform (0, 0, 3, 7) 1024 = Inr t"
    using glyph_transform_small [OF s] by simp
  ultimately show ?thesis
    by (auto simp: export_svg_for_glyph_dynamic_def get_glyph_bounds_def)
qed

theorem canvas_truncated_witness:
  "\<exists>bb scale sw sh.
      get_glyph_bounds \<lparr>boundingBox = Some (0, 0, 3, 7), bounds = None, outline = []\<rparr> = Inr bb
      \<and> glyph_scale bb 1024 = Inr scale
      \<and> sw = fl (fl (of_int (fst (glyph_size bb 1024))) * scale)
      \<and> sh = fl (fl (of_int (snd (glyph_size bb 1024))) * scale)
      \<and> (438::int) = int_part sw \<and> (1024::int) = int_part sh
      \<and> \<bar>of_int (438::int)\<bar> \<le> \<bar>sw\<bar> \<and> \<bar>sw - of_int (438::int)\<bar> < 1"
  using canvas_truncated [OF scenario_37_export] by simp blast

subsection \<open>The longest side\<close>

lemma int_part_nonneg_mono:
  assumes "0 \<le> x" and "x \<le> y"
  shows "int_part x \<le> int_part y"
  using assms by (simp add: int_part_def floor_mono)

lemma scale_product_bounds:
  assumes "0 < S" and "S < 2 ^ 52" and "0 < m" and "m \<le> 2 ^ 53"
  shows "of_int S - 1 \<le> fl (of_int m * fl (of_int S / of_int m))"
    and "fl (of_int m * fl (of_int S / of_int m)) \<le> of_int S + 1 / 2"
proof -
  define q :: rat where "q = of_int S / of_int m"
  have Sr: "(1::rat) \<le> of_int S" "(of_int S :: rat) < 2 ^ 52"
    using assms(1,2) by simp_all
  have mr: "(0::rat) < of_int m" "(of_int m :: rat) \<le> 2 ^ 53"
    using assms(3,4) by simp_all
  have qpos: "0 < q"
    using Sr mr by (simp add: q_def)
  have "1 / 2 ^ 53 \<le> q"
    unfolding q_def using Sr(1) mr by (intro frac_le) simp_all
  moreover have "(2::rat) powi (- 1022) \<le> 2 powi (- 53)"
    by (intro power_int_increasing) simp_all
  ultimately have "2 powi (- 1022) \<le> \<bar>q\<bar>"
    using qpos by (simp add: power_int_minus_divide)
  then have "\<bar>fl q - q\<bar> \<le> \<bar>q\<bar> / 2 ^ 53"
    by (rule fl_relerr)
  then have "of_int m * \<bar>fl q - q\<bar> \<le> of_int m * (q / 2 ^ 53)"
    using mr(1) qpos by (intro mult_left_mono) simp_all
  also have "of_int m * (q / 2 ^ 53) = of_int S / 2 ^ 53"
    using mr(1) by (simp add: q_def)
  also have "\<dots> < 1 / 2"
    using Sr(2) by simp
  finally have "\<bar>of_int m * fl q - of_int m * q\<bar> < 1 / 2"
    using mr(1) by (simp add: abs_mult right_diff_distrib [symmetric])
  moreover have "of_int m * q = (of_int S :: rat)"
    using mr(1) by (simp add: q_def)
  ultimately have near: "\<bar>of_int m * fl q - of_int S\<bar> < 1 / 2"
    by simp
  have "fl (of_int (S - 1)) \<le> fl (of_int m * fl q)"
    using near by (intro fl_mono) (simp add: abs_if split: if_splits)
  moreover have "fl (of_int (S - 1)) = of_int (S - 1)"
    using assms(1,2) by (intro fl_of_int) simp
  ultimately show "of_int S - 1 \<le> fl (of_int m * fl (of_int S / of_int m))"
    by (simp add: q_def)
  have "fl (of_int m * fl q) \<le> fl (of_int (2 * S + 1) * 2 powi (- 1))"
    using near by (intro fl_mono) (simp add: abs_if power_int_minus_divide split: if_splits)
  moreover have "fl (of_int (2 * S + 1) * 2 powi (- 1)) = of_int (2 * S + 1) * 2 powi (- 1)"
    using assms(1,2) by (intro fl_representable) simp_all
  ultimately show "fl (of_int m * fl (of_int S / of_int m)) \<le> of_int S + 1 / 2"
    by (simp add: q_def power_int_minus_divide)
qed

lemma int_part_near:
  assumes "of_int S - 1 \<le> v" and "v \<le> of_int S + 1 / 2" and "0 < S"
  shows "int_part v = S \<or> int_part v = S - 1"
proof -
  have "(1::rat) \<le> of_int S"
    using assms(3) by simp
  then have "0 \<le> v"
    using assms(1) by linarith
  then have i: "int_part v = \<lfloor>v\<rfloor>"
    by (simp add: int_part_def)
  have "S - 1 \<le> \<lfloor>v\<rfloor>"
    using assms(1) by (simp add: le_floor_iff)
  moreover have "v < of_int (S + 1)"
    using assms(2) by simp
  then have "\<lfloor>v\<rfloor> < S + 1"
    by (simp only: floor_less_iff)
  ultimately show ?thesis
    unfolding i by linarith
qed

lemma smaller_side_scaled:
  assumes "0 < d" and "d \<le> m" and "0 \<le> sc"
  shows "int_part (fl (of_int d * sc)) \<le> int_part (fl (of_int m * sc))"
proof -
  have "(0::rat) \<le> of_int d" "(of_int d :: rat) \<le> of_int m"
    using assms(1,2) by simp_all
  then have "0 \<le> of_int d * sc" "of_int d * sc \<le> of_int m * sc"
    using assms(3) by (simp_all add: mult_right_mono)
  then have "0 \<le> fl (of_int d * sc)" "fl (of_int d * sc) \<le> fl (of_int m * sc)"
    by (simp_all add: fl_nonneg fl_mono)
  then show ?thesis
    by (rule int_part_nonneg_mono)
qed

text \<open>
  C5. For a glyph whose box has positive width and height, the larger of the two
  dimensions written into the document is the canvas size \<open>S\<close> up to one unit of
  rounding: it is \<open>S\<close> or \<open>S - 1\<close>. Sides of at most \<open>2 ^ 53\<close> and a canvas size below
  \<open>2 ^ 52\<close> are taken, the range in which the floats hold the integers exactly.
\<close>

theorem longest_side_is_canvas_size:
  assumes "export_svg_for_glyph_dynamic pen_call pen_init g S = Inr doc"
    and "get_glyph_bounds g = Inr (xmin, ymin, xmax, ymax)"
    and "xmin < xmax" and "ymin < ymax"
    and "xmax - xmin \<le> 2 ^ 53" and "ymax - ymin \<le> 2 ^ 53"
    and "0 < S" and "S < 2 ^ 52"
  shows "max (svg_width doc) (svg_height doc) = S \<or> max (svg_width doc) (svg_height doc) = S - 1"
proof -
  define w where "w = xmax - xmin"
  define h where "h = ymax - ymin"
  define m where "m = max w h"
  define sc where "sc = fl (of_int S / of_int m)"
  have wh: "0 < w" "0 < h" "w \<le> 2 ^ 53" "h \<le> 2 ^ 53"
    using assms(3-6) by (simp_all add: w_def h_def)
  have m: "0 < m" "m \<le> 2 ^ 53" "w \<le> m" "h \<le> m"
    using wh by (simp_all add: m_def)
  have gs: "glyph_size (xmin, ymin, xmax, ymax) S = (w, h)"
    using assms(3,4) by (simp add: glyph_size_cases w_def h_def)
  from assms(1) obtain bb where "get_glyph_bounds g = Inr bb"
    and "scaled_size bb S = Inr (svg_width doc, svg_height doc)"
    by (rule export_InrD)
  with assms(2) have "scaled_size (xmin, ymin, xmax, ymax) S = Inr (svg_width doc, svg_height doc)"
    by simp
  moreover have "scaled_size (xmin, ymin, xmax, ymax) S =
      Inr (int_part (fl (of_int w * sc)), int_part (fl (of_int h * sc)))"
    unfolding sc_def m_def using wh assms(7,8) by (intro scaled_size_small [OF gs]) simp_all
  ultimately have dims: "svg_width doc = int_part (fl (of_int w * sc))"
    "svg_height doc = int_part (fl (of_int h * sc))"
    by simp_all
  have "0 \<le> of_int S / (of_int m :: rat)"
    using assms(7) m(1) by simp
  then have sc0: "0 \<le> sc"
    unfolding sc_def by (rule fl_nonneg)
  have "max (svg_width doc) (svg_height doc) = int_part (fl (of_int m * sc))"
  proof (cases "w \<le> h")
    case True
    then have "m = h" by (simp add: m_def)
    then show ?thesis
      using smaller_side_scaled [OF wh(1) m(3) sc0] by (simp add: dims)
  next
    case False
    then have "m = w" by (simp add: m_def)
    then show ?thesis
      using smaller_side_scaled [OF wh(2) m(4) sc0] by (simp add: dims)
  qed
  moreover have "int_part (fl (of_int m * sc)) = S \<or> int_part (fl (of_int m * sc)) = S - 1"
    unfolding sc_def
    using scale_product_bounds [OF assms(7,8) m(1,2)] assms(7) by (rule int_part_near)
  ultimately show ?thesis
    by simp
qed

lemma scenario_49_values:
  "int_part (fl (49 * fl (1024 / 49))) = 1023" "int_part (fl (10 * fl (1024 / 49))) = 208"
  by code_simp+

lemma scenario_49_export:
  "export_svg_for_glyph_dynamic (\<lambda>t c s. s) ()
     \<lparr>boundingBox = Some (0, 0, 49, 10), bounds = None, outline = []\<rparr> 1024 =
   Inr \<lparr>viewBox_width = 1023, viewBox_height = 208, svg_width = 1023, svg_height = 208,
        path_d = ''M0 0''\<rparr>"
proof -
  have s: "glyph_size (0, 0, 49, 10) 1024 = (49, 10)"
    by (simp add: glyph_size_cases)
  have "scaled_size (0, 0, 49, 10) 1024 = Inr (1023, 208)"
    using scaled_size_small [OF s] by (simp add: scenario_49_values)
  moreover have "\<exists>t. glyph_transform (0, 0, 49, 10) 1024 = Inr t"
    using glyph_transform_small [OF s] by simp
  ultimately show ?thesis
    by (auto simp: export_svg_for_glyph_dynamic_def get_glyph_bounds_def)
qed

theorem longest_side_is_canvas_size_witness:
  "export_svg_for_glyph_dynamic (\<lambda>t c s. s) ()
     \<lparr>boundingBox = Some (0, 0, 49, 10), bounds = None, outline = []\<rparr> 1024 =
   Inr \<lparr>viewBox_width = 1023, viewBox_height = 208, svg_width = 1023, svg_height = 208,
        path_d = ''M0 0''\<rparr>
   \<and> (max 1023 208 = (1024::int) \<or> max 1023 208 = (1024::int) - 1)"
proof -
  have b: "get_glyph_bounds \<lparr>boundingBox = Some (0, 0, 49, 10), bounds = None, outline = []\<rparr>
      = Inr (0, 0, 49, 10)"
    by (simp add: get_glyph_bounds_def)
  show ?thesis
    using longest_side_is_canvas_size [OF scenario_49_export b] scenario_49_export
    by simp
qed

section \<open>Canonicalization of given texts\<close>

lemma repl_eval:
  assumes "decimal_value t = q" and "\<bar>q\<bar> \<le> 2 ^ 106" and "round_half_even (fl q) = n"
    and "py_str n = u"
  shows "repl t = Inr u"
proof -
  have "\<bar>fl q\<bar> \<le> 2 ^ 106"
    using assms(2) by (rule fl_abs_le_pow)
  then have "\<not> is_inf (fl q)"
    by (rule not_inf_small)
  then show ?thesis
    using assms(1,3,4) by (simp add: repl_def py_float_def py_round_def)
qed

lemmas number_defs = decimal_value_def match_number_def split_sign_def split_dot_def
  split_exponent_def is_digit_def digits_val_def digit_val_def

lemmas str_defs = py_str_def digits_of.simps digit_char_def

lemma repl_10_6: "repl ''10.6'' = Inr ''11''"
proof (rule repl_eval)
  show "decimal_value ''10.6'' = 53/5" by (simp add: number_defs)
  show "\<bar>53/5::rat\<bar> \<le> 2 ^ 106" by simp
  show "round_half_even (fl (53/5)) = 11" by code_simp
  show "py_str 11 = ''11''" by (simp add: str_defs)
qed

lemma repl_20_4: "repl ''20.4'' = Inr ''20''"
proof (rule repl_eval)
  show "decimal_value ''20.4'' = 102/5" by (simp add: number_defs)
  show "\<bar>102/5::rat\<bar> \<le> 2 ^ 106" by simp
  show "round_half_even (fl (102/5)) = 20" by code_simp
  show "py_str 20 = ''20''" by (simp add: str_defs)
qed

lemma repl_30: "repl ''30'' = Inr ''30''"
proof (rule repl_eval)
  show "decimal_value ''30'' = 30" by (simp add: number_defs)
  show "\<bar>30::rat\<bar> \<le> 2 ^ 106" by simp
  show "round_half_even (fl (30)) = 30" by code_simp
  show "py_str 30 = ''30''" by (simp add: str_defs)
qed

lemma repl_40: "repl ''40'' = Inr ''40''"
proof (rule repl_eval)
  show "decimal_value ''40'' = 40" by (simp add: number_defs)
  show "\<bar>40::rat\<bar> \<le> 2 ^ 106" by simp
  show "round_half_even (fl (40)) = 40" by code_simp
  show "py_str 40 = ''40''" by (simp add: str_defs)
qed

lemma repl_50: "repl ''50'' = Inr ''50''"
proof (rule repl_eval)
  show "decimal_value ''50'' = 50" by (simp add: number_defs)
  show "\<bar>50::rat\<bar> \<le> 2 ^ 106" by simp
  show "round_half_even (fl (50)) = 50" by code_simp
  show "py_str 50 = ''50''" by (simp add: str_defs)
qed

lemma repl_60: "repl ''60'' = Inr ''60''"
proof (rule repl_eval)
  show "decimal_value ''60'' = 60" by (simp add: number_defs)
  show "\<bar>60::rat\<bar> \<le> 2 ^ 106" by simp
  show "round_half_even (fl (60)) = 60" by code_simp
  show "py_str 60 = ''60''" by (simp add: str_defs)
qed

lemma repl_70_49: "repl ''70.49'' = Inr ''70''"
proof (rule repl_eval)
  show "decimal_value ''70.49'' = 7049/100" by (simp add: number_defs)
  show "\<bar>7049/100::rat\<bar> \<le> 2 ^ 106" by simp
  show "round_half_even (fl (7049/100)) = 70" by code_simp
  show "py_str 70 = ''70''" by (simp add: str_defs)
qed

lemma repl_80: "repl ''80'' = Inr ''80''"
proof (rule repl_eval)
  show "decimal_value ''80'' = 80" by (simp add: number_defs)
  show "\<bar>80::rat\<bar> \<le> 2 ^ 106" by simp
  show "round_half_even (fl (80)) = 80" by code_simp
  show "py_str 80 = ''80''" by (simp add: str_defs)
qed

lemma repl_2_5: "repl ''2.5'' = Inr ''2''"
proof (rule repl_eval)
  show "decimal_value ''2.5'' = 5/2" by (simp add: number_defs)
  show "\<bar>5/2::rat\<bar> \<le> 2 ^ 106" by simp
  show "round_half_even (fl (5/2)) = 2" by code_simp
  show "py_str 2 = ''2''" by (simp add: str_defs)
qed

lemma repl_1_dot: "repl ''1.'' = Inr ''1''"
proof (rule repl_eval)
  show "decimal_value ''1.'' = 1" by (simp add: number_defs)
  show "\<bar>1::rat\<bar> \<le> 2 ^ 106" by simp
  show "round_half_even (fl (1)) = 1" by code_simp
  show "py_str 1 = ''1''" by (simp add: str_defs)
qed

lemma repl_5: "repl ''5'' = Inr ''5''"
proof (rule repl_eval)
  show "decimal_value ''5'' = 5" by (simp add: number_defs)
  show "\<bar>5::rat\<bar> \<le> 2 ^ 106" by simp
  show "round_half_even (fl (5)) = 5" by code_simp
  show "py_str 5 = ''5''" by (simp add: str_defs)
qed

lemma repl_1_5: "repl ''1.5'' = Inr ''2''"
proof (rule repl_eval)
  show "decimal_value ''1.5'' = 3/2" by (simp add: number_defs)
  show "\<bar>3/2::rat\<bar> \<le> 2 ^ 106" by simp
  show "round_half_even (fl (3/2)) = 2" by code_simp
  show "py_str 2 = ''2''" by (simp add: str_defs)
qed

lemmas scan_defs = round_path_data.simps match_number_def split_sign_def split_dot_def split_exponent_def is_digit_def

lemmas space_defs = add_space_around_commands_def strip_def is_cmd_def is_space_def

lemma scenario_D_rounded:
  "round_path_data ''M10.6,20.4C30,40,50,60,70.49,80'' = Inr ''M11,20C30,40,50,60,70,80''"
  by (simp add: scan_defs repl_10_6 repl_20_4 repl_30 repl_40 repl_50 repl_60 repl_70_49 repl_80)

lemma scenario_D_spaced:
  "add_space_around_commands ''M11,20C30,40,50,60,70,80'' = ''M 11,20 C 30,40,50,60,70,80''"
  by (simp add: space_defs is_digit_def)

lemma scenario_D_value:
  "canonicalize ''M10.6,20.4C30,40,50,60,70.49,80'' = Inr ''M 11,20 C 30,40,50,60,70,80''"
  by (simp only: canonicalize_def scenario_D_rounded then_ok_Inr scenario_D_spaced)

lemma tie_value: "round_path_data ''2.5'' = Inr ''2''"
  by (simp add: scan_defs repl_2_5)

lemma double_dot_values:
  "canonicalize ''1..5'' = Inr ''1.5''" "canonicalize ''1.5'' = Inr ''2''"
  by (simp_all add: canonicalize_def scan_defs space_defs repl_1_dot repl_5 repl_1_5)

lemma close_move_value: "canonicalize ''MZ'' = Inr ''MZ''"
  by (simp add: canonicalize_def scan_defs space_defs)

subsection \<open>Scenario D and the rounding of ties\<close>

text \<open>
  C6, as the claim states it, fails: the canonical form of
  \<open>M10.6,20.4C30,40,50,60,70.49,80\<close> is not \<open>M11 20 C30 40 50 60 70 80\<close>. The commas
  stay, and a space separates each command letter from the digit after it.
\<close>

theorem canonicalize_scenario_D_counterexample:
  "canonicalize ''M10.6,20.4C30,40,50,60,70.49,80'' \<noteq> Inr ''M11 20 C30 40 50 60 70 80''"
  by (simp add: scenario_D_value)

text \<open>
  C6, amended. Rounding and then spacing \<open>M10.6,20.4C30,40,50,60,70.49,80\<close> gives
  \<open>M 11,20 C 30,40,50,60,70,80\<close>.
\<close>

theorem canonicalize_scenario_D:
  "canonicalize ''M10.6,20.4C30,40,50,60,70.49,80'' = Inr ''M 11,20 C 30,40,50,60,70,80''"
  by (rule scenario_D_value)

text \<open>
  C2, as the claim states it, fails: \<open>2.5\<close> lies half way between 2 and 3, rounding half
  away from zero gives 3, and \<open>round_path_data\<close> writes 2.
\<close>

theorem round_half_away_counterexample:
  "round_path_data ''2.5'' = Inr ''2'' \<and> round_path_data ''2.5'' \<noteq> Inr ''3''"
  by (simp add: tie_value)

text \<open>
  C2, amended. \<open>round_path_data\<close> copies the text up to the next match of the pattern
  (an optional minus sign, digits, an optional point and digits, an optional exponent
  with a lower-case \<open>e\<close>), and replaces the match by the decimal digits of the integer
  nearest to its float value; when two integers are equally near it takes the even one.
\<close>

theorem round_path_data_token:
  assumes "round_path_data s = Inr out"
  shows "case s of
           [] \<Rightarrow> out = []
         | c # cs \<Rightarrow>
             (case match_number s of
                None \<Rightarrow> \<exists>v. out = c # v \<and> round_path_data cs = Inr v
              | Some (t, r) \<Rightarrow>
                  \<exists>n v. out = py_str n @ v \<and> round_path_data r = Inr v
                    \<and> set (py_str n) \<subseteq> set ''-0123456789''
                    \<and> \<bar>of_int n - py_float t\<bar> \<le> 1 / 2
                    \<and> (\<bar>of_int n - py_float t\<bar> = 1 / 2 \<longrightarrow> even n))"
proof (cases s)
  case Nil
  with assms show ?thesis by (simp add: round_path_data.simps)
next
  case (Cons c cs)
  show ?thesis
  proof (cases "match_number (c # cs)")
    case None
    with assms Cons show ?thesis
      by (auto simp: round_path_data.simps then_ok_eq_Inr)
  next
    case (Some p)
    obtain t r where p: "p = (t, r)" by force
    from assms Cons Some p obtain u v where u: "repl t = Inr u"
      and v: "round_path_data r = Inr v" and out: "out = u @ v"
      by (auto simp: round_path_data.simps then_ok_eq_Inr)
    define n where "n = round_half_even (py_float t)"
    have "u = py_str n"
      using repl_InrD(1) [OF u] by (simp add: n_def)
    moreover have "\<bar>of_int n - py_float t\<bar> \<le> 1 / 2"
      unfolding n_def by (rule rhe_err)
    moreover have "\<bar>of_int n - py_float t\<bar> = 1 / 2 \<longrightarrow> even n"
      unfolding n_def using rhe_tie by blast
    ultimately show ?thesis
      using Cons Some p v out py_str_range [of n] by auto
  qed
qed

theorem round_path_data_token_witness:
  "round_path_data ''2.5'' = Inr ''2''
   \<and> (\<exists>n v. ''2'' = py_str n @ v \<and> round_path_data [] = Inr v
        \<and> set (py_str n) \<subseteq> set ''-0123456789''
        \<and> \<bar>of_int n - py_float ''2.5''\<bar> \<le> 1 / 2
        \<and> (\<bar>of_int n - py_float ''2.5''\<bar> = 1 / 2 \<longrightarrow> even n))"
proof -
  have m: "match_number ''2.5'' = Some (''2.5'', [])"
    by (simp add: scan_defs)
  show ?thesis
    using round_path_data_token [OF tie_value] tie_value unfolding m
    by (simp add: round_path_data.simps)
qed

text \<open>
  C3, as the claim states it, fails: \<open>1..5\<close> is the number \<open>1.\<close>, a point and the number
  \<open>5\<close>; the first pass gives \<open>1.5\<close>, which the second pass reads as one number and
  rounds to \<open>2\<close>.
\<close>

theorem canonicalize_twice_counterexample:
  "canonicalize ''1..5'' = Inr ''1.5'' \<and> canonicalize ''1.5'' = Inr ''2''"
  by (simp add: double_dot_values)

text \<open>
  C7, as the claim states it, fails: in the canonical form of \<open>MZ\<close> the command letter
  \<open>M\<close> is directly followed by the letter \<open>Z\<close>, which is neither a space nor a digit.
\<close>

theorem command_letter_neighbour_counterexample:
  "canonicalize ''MZ'' = Inr ''MZ'' \<and> is_cmd (''MZ'' ! 0) \<and> ''MZ'' ! 1 = CHR ''Z''
   \<and> \<not> is_space (CHR ''Z'') \<and> \<not> is_digit (CHR ''Z'')"
  by (simp add: close_move_value is_cmd_def is_space_def is_digit_def)

section \<open>Spaces around command letters\<close>

lemma no_pair_tail: "no_pair P Q (a # xs) \<Longrightarrow> no_pair P Q xs"
  by (cases xs) simp_all

lemma no_pair_append: "no_pair P Q (xs @ ys) \<Longrightarrow> no_pair P Q xs \<and> no_pair P Q ys"
proof (induction xs)
  case Nil
  then show ?case by simp
next
  case (Cons a xs)
  then have "no_pair P Q (xs @ ys)"
    using no_pair_tail [of P Q a "xs @ ys"] by simp
  with Cons.IH have IH: "no_pair P Q xs" "no_pair P Q ys" by simp_all
  show ?case
  proof (cases xs)
    case Nil
    with IH show ?thesis by simp
  next
    case (Cons b zs)
    with Cons.prems IH show ?thesis by simp
  qed
qed

lemma no_pair_nth:
  "no_pair P Q s \<Longrightarrow> Suc i < length s \<Longrightarrow> \<not> (P (s ! i) \<and> Q (s ! Suc i))"
proof (induction P Q s arbitrary: i rule: no_pair.induct)
  case (1 P Q a b cs)
  show ?case
  proof (cases i)
    case 0
    with "1.prems" show ?thesis by simp
  next
    case (Suc j)
    with "1.prems" "1.IH" [of j] show ?thesis by simp
  qed
qed simp_all

lemma space_before_cmd_pairs:
  "(is_digit a \<longrightarrow> p) \<Longrightarrow> no_pair is_digit is_cmd (a # space_before_cmd p s)"
proof (induction s arbitrary: a p)
  case Nil
  then show ?case by simp
next
  case (Cons c cs)
  have "no_pair is_digit is_cmd (c # space_before_cmd (is_digit c) cs)"
    by (rule Cons.IH) simp
  with Cons.prems show ?case by auto
qed

lemma space_before_cmd_no_pair: "no_pair is_digit is_cmd (space_before_cmd False s)"
  using space_before_cmd_pairs [of "CHR '' ''" False s] no_pair_tail by fastforce

lemma space_after_cmd_hd: "\<exists>r. space_after_cmd (d # cs) = d # r"
  by (cases cs) simp_all

lemma space_after_cmd_no_pair: "no_pair is_cmd is_digit (space_after_cmd s)"
proof (induction s rule: space_after_cmd.induct)
  case (1 c d cs)
  obtain r where r: "space_after_cmd (d # cs) = d # r"
    using space_after_cmd_hd by blast
  show ?case
  proof (cases "is_cmd c \<and> is_digit d")
    case True
    with "1.IH" r show ?thesis by simp
  next
    case False
    with "1.IH" r show ?thesis by simp
  qed
qed simp_all

lemma space_after_cmd_keeps:
  "no_pair is_digit is_cmd s \<Longrightarrow> no_pair is_digit is_cmd (space_after_cmd s)"
proof (induction s rule: space_after_cmd.induct)
  case (1 c d cs)
  obtain r where r: "space_after_cmd (d # cs) = d # r"
    using space_after_cmd_hd by blast
  from "1.prems" have "no_pair is_digit is_cmd (d # cs)"
    by simp
  then have IH: "no_pair is_digit is_cmd (space_after_cmd (d # cs))"
    using "1.IH" by blast
  show ?case
  proof (cases "is_cmd c \<and> is_digit d")
    case True
    with IH r show ?thesis by simp
  next
    case False
    with IH r "1.prems" show ?thesis by simp
  qed
qed simp_all

lemma collapse_spaces_hd:
  "\<exists>r. collapse_spaces (c # cs) = (if is_space c then CHR '' '' else c) # r"
  by simp

lemma collapse_spaces_keeps:
  assumes "\<And>c. is_space c \<Longrightarrow> \<not> P c" and "\<And>c. is_space c \<Longrightarrow> \<not> Q c"
  shows "no_pair P Q s \<Longrightarrow> no_pair P Q (collapse_spaces s)"
proof (induction s rule: collapse_spaces.induct)
  case 1
  then show ?case by simp
next
  case (2 c cs)
  have b: "\<not> P CHR '' ''" "\<not> Q CHR '' ''"
    using assms by simp_all
  show ?case
  proof (cases "is_space c")
    case True
    have "no_pair P Q (dropWhile is_space cs)"
      using "2.prems" no_pair_append [of P Q "c # takeWhile is_space cs" "dropWhile is_space cs"]
      by simp
    then have "no_pair P Q (collapse_spaces (dropWhile is_space cs))"
      using "2.IH"(1) True by blast
    then show ?thesis
      using True b by (cases "collapse_spaces (dropWhile is_space cs)") simp_all
  next
    case False
    have "no_pair P Q cs"
      using "2.prems" by (rule no_pair_tail)
    then have IH: "no_pair P Q (collapse_spaces cs)"
      using "2.IH"(2) False by blast
    show ?thesis
    proof (cases cs)
      case Nil
      with False show ?thesis by simp
    next
      case (Cons d ds)
      obtain r where r: "collapse_spaces (d # ds) = (if is_space d then CHR '' '' else d) # r"
        using collapse_spaces_hd by blast
      have "\<not> (P c \<and> Q (if is_space d then CHR '' '' else d))"
        using "2.prems" Cons b by auto
      then show ?thesis
        using False IH Cons r by simp
    qed
  qed
qed

lemma strip_parts: "\<exists>a b. s = a @ strip s @ b"
proof -
  let ?t = "dropWhile is_space s"
  have "s = takeWhile is_space s @ ?t"
    by simp
  moreover have "?t = rev (dropWhile is_space (rev ?t)) @ rev (takeWhile is_space (rev ?t))"
    by (metis rev_append rev_rev_ident takeWhile_dropWhile_id)
  ultimately have "s = takeWhile is_space s @ strip s @ rev (takeWhile is_space (rev ?t))"
    by (simp add: strip_def)
  then show ?thesis by blast
qed

lemma strip_keeps: "no_pair P Q s \<Longrightarrow> no_pair P Q (strip s)"
proof -
  assume h: "no_pair P Q s"
  obtain a b where "s = a @ strip s @ b"
    using strip_parts by blast
  with h have "no_pair P Q (a @ strip s @ b)" by simp
  then show ?thesis
    using no_pair_append by blast
qed

lemma add_space_no_pairs:
  "no_pair is_digit is_cmd (add_space_around_commands s)"
  "no_pair is_cmd is_digit (add_space_around_commands s)"
proof -
  let ?u = "space_after_cmd (space_before_cmd False s)"
  have "no_pair is_digit is_cmd ?u"
    by (intro space_after_cmd_keeps space_before_cmd_no_pair)
  then show "no_pair is_digit is_cmd (add_space_around_commands s)"
    unfolding add_space_around_commands_def
    by (intro strip_keeps collapse_spaces_keeps) (auto dest: digit_not_space cmd_not_space)
  have "no_pair is_cmd is_digit ?u"
    by (rule space_after_cmd_no_pair)
  then show "no_pair is_cmd is_digit (add_space_around_commands s)"
    unfolding add_space_around_commands_def
    by (intro strip_keeps collapse_spaces_keeps) (auto dest: digit_not_space cmd_not_space)
qed

lemma collapse_spaces_blank: "c \<in> set (collapse_spaces s) \<Longrightarrow> is_space c \<Longrightarrow> c = CHR '' ''"
proof (induction s rule: collapse_spaces.induct)
  case 1
  then show ?case by simp
next
  case (2 d ds)
  then show ?case by (cases "is_space d") auto
qed

lemma strip_subset: "set (strip s) \<subseteq> set s"
proof -
  obtain a b where "s = a @ strip s @ b"
    using strip_parts by blast
  then have "set s = set a \<union> set (strip s) \<union> set b"
    by (metis set_append sup_assoc)
  then show ?thesis by blast
qed

lemma add_space_blank:
  "c \<in> set (add_space_around_commands s) \<Longrightarrow> is_space c \<Longrightarrow> c = CHR '' ''"
  unfolding add_space_around_commands_def
  using strip_subset collapse_spaces_blank by blast

text \<open>
  C7, amended. In every output of \<open>add_space_around_commands\<close> a command letter is never
  directly preceded or followed by a digit, and a white-space character next to it is one
  plain space. Other characters (another letter, a comma, a sign) can stand directly next
  to a command letter.
\<close>

theorem command_letters_separated:
  assumes "i < length (add_space_around_commands s)"
    and "is_cmd (add_space_around_commands s ! i)"
  shows "(0 < i \<longrightarrow> \<not> is_digit (add_space_around_commands s ! (i - 1))
                 \<and> (is_space (add_space_around_commands s ! (i - 1))
                      \<longrightarrow> add_space_around_commands s ! (i - 1) = CHR '' ''))
    \<and> (Suc i < length (add_space_around_commands s)
        \<longrightarrow> \<not> is_digit (add_space_around_commands s ! Suc i)
          \<and> (is_space (add_space_around_commands s ! Suc i)
               \<longrightarrow> add_space_around_commands s ! Suc i = CHR '' ''))"
proof -
  let ?o = "add_space_around_commands s"
  have before: "\<not> is_digit (?o ! (i - 1))" if "0 < i"
  proof -
    from that obtain j where j: "i = Suc j"
      by (cases i) simp_all
    then show ?thesis
      using no_pair_nth [OF add_space_no_pairs(1), of j s] assms by simp
  qed
  have after: "\<not> is_digit (?o ! Suc i)" if "Suc i < length ?o"
    using no_pair_nth [OF add_space_no_pairs(2), of i s] that assms(2) by simp
  have blank: "?o ! k = CHR '' ''" if "k < length ?o" "is_space (?o ! k)" for k
    using add_space_blank [of "?o ! k" s] that by simp
  show ?thesis
    using before after blank [of "i - 1"] blank [of "Suc i"] assms(1) by auto
qed

theorem command_letters_separated_witness:
  "add_space_around_commands ''M11,20C30'' = ''M 11,20 C 30''
   \<and> \<not> is_digit (''M 11,20 C 30'' ! (8 - 1)) \<and> \<not> is_digit (''M 11,20 C 30'' ! Suc 8)"
proof -
  have v: "add_space_around_commands ''M11,20C30'' = ''M 11,20 C 30''"
    by (simp add: add_space_around_commands_def strip_def is_cmd_def is_space_def is_digit_def)
  have "(8::nat) < length (add_space_around_commands ''M11,20C30'')"
    "is_cmd (add_space_around_commands ''M11,20C30'' ! 8)"
    unfolding v by (simp_all add: is_cmd_def)
  from command_letters_separated [OF this] show ?thesis
    unfolding v by simp
qed

section \<open>What canonicalization keeps\<close>

lemma path_tokens_text: "concat (map token_text (path_tokens s)) = s"
proof (induction s rule: path_tokens.induct)
  case 1
  then show ?case by (simp add: path_tokens.simps)
next
  case (2 c cs)
  show ?case
  proof (cases "match_number (c # cs)")
    case None
    with "2.IH"(1) show ?thesis
      by (simp add: path_tokens.simps)
  next
    case (Some p)
    obtain t r where p: "p = (t, r)" by force
    have "t @ r = c # cs"
      using match_number_parts(1) [of "c # cs" t r] Some p by simp
    moreover have "concat (map token_text (path_tokens r)) = r"
      using "2.IH"(2) Some p by simp
    ultimately show ?thesis
      using Some p by (simp add: path_tokens.simps)
  qed
qed

lemma round_path_data_tokens:
  "round_path_data s = Inr out \<Longrightarrow>
   out = concat (map (\<lambda>tok. case tok of Number t \<Rightarrow> py_str (round_half_even (py_float t))
                               | Other c \<Rightarrow> [c]) (path_tokens s))"
proof (induction s arbitrary: out rule: path_tokens.induct)
  case 1
  then show ?case by (simp add: path_tokens.simps)
next
  case (2 c cs)
  show ?case
  proof (cases "match_number (c # cs)")
    case None
    from "2.prems" None obtain v where v: "round_path_data cs = Inr v" and out: "out = c # v"
      by (auto simp: round_path_data.simps then_ok_eq_Inr)
    show ?thesis
      using "2.IH"(1) [OF None v] None out by (simp add: path_tokens.simps)
  next
    case (Some p)
    obtain t r where p: "p = (t, r)" by force
    from "2.prems" Some p obtain u v where u: "repl t = Inr u"
      and v: "round_path_data r = Inr v" and out: "out = u @ v"
      by (auto simp: round_path_data.simps then_ok_eq_Inr)
    have "u = py_str (round_half_even (py_float t))"
      using u by (auto simp: repl_def py_round_def then_ok_eq_Inr split: if_splits)
    then show ?thesis
      using "2.IH"(2) [OF Some [unfolded p] refl v] Some p out by (simp add: path_tokens.simps)
  qed
qed

lemma filter_space_before_cmd:
  "filter (\<lambda>c. \<not> is_space c) (space_before_cmd p s) = filter (\<lambda>c. \<not> is_space c) s"
  by (induction s arbitrary: p) simp_all

lemma filter_space_after_cmd:
  "filter (\<lambda>c. \<not> is_space c) (space_after_cmd s) = filter (\<lambda>c. \<not> is_space c) s"
  by (induction s rule: space_after_cmd.induct) simp_all

lemma filter_dropWhile_space:
  "filter (\<lambda>c. \<not> is_space c) (dropWhile is_space s) = filter (\<lambda>c. \<not> is_space c) s"
  by (induction s) simp_all

lemma filter_collapse_spaces:
  "filter (\<lambda>c. \<not> is_space c) (collapse_spaces s) = filter (\<lambda>c. \<not> is_space c) s"
  by (induction s rule: collapse_spaces.induct) (simp_all add: filter_dropWhile_space)

lemma filter_strip:
  "filter (\<lambda>c. \<not> is_space c) (strip s) = filter (\<lambda>c. \<not> is_space c) s"
proof -
  have "filter (\<lambda>c. \<not> is_space c) (strip s)
      = rev (filter (\<lambda>c. \<not> is_space c) (dropWhile is_space (rev (dropWhile is_space s))))"
    by (simp add: strip_def rev_filter)
  also have "\<dots> = rev (filter (\<lambda>c. \<not> is_space c) (rev (dropWhile is_space s)))"
    by (simp only: filter_dropWhile_space)
  also have "\<dots> = filter (\<lambda>c. \<not> is_space c) (dropWhile is_space s)"
    by (simp add: rev_filter)
  finally show ?thesis
    by (simp only: filter_dropWhile_space)
qed

lemma filter_add_space:
  "filter (\<lambda>c. \<not> is_space c) (add_space_around_commands s) = filter (\<lambda>c. \<not> is_space c) s"
  by (simp only: add_space_around_commands_def filter_strip filter_collapse_spaces
      filter_space_after_cmd filter_space_before_cmd)

lemma py_str_no_space: "filter (\<lambda>c. \<not> is_space c) (py_str n) = py_str n"
proof -
  have "\<not> is_space c" if "c \<in> set ''-0123456789''" for c
    using that by (auto simp: is_space_def)
  then have "\<forall>c \<in> set (py_str n). \<not> is_space c"
    using py_str_range [of n] by blast
  then show ?thesis
    by (simp only: filter_id_conv)
qed

text \<open>
  C10. The canonical form differs from the input only in the numbers and in the white
  space. Cut the input into the numbers \<open>round_path_data\<close> finds and the characters
  between them: the output without its white space is, in the same order, every number
  replaced by its integer and every other character that is not white space, unchanged.
\<close>

theorem canonicalize_keeps_other_characters:
  assumes "canonicalize s = Inr out"
  shows "concat (map token_text (path_tokens s)) = s
    \<and> filter (\<lambda>c. \<not> is_space c) out =
        concat (map (\<lambda>tok. case tok of
                              Number t \<Rightarrow> py_str (round_half_even (py_float t))
                            | Other c \<Rightarrow> if is_space c then [] else [c])
                    (path_tokens s))"
proof -
  from assms obtain d where d: "round_path_data s = Inr d"
    and out: "out = add_space_around_commands d"
    by (auto simp: canonicalize_def then_ok_eq_Inr)
  let ?f = "\<lambda>tok. case tok of Number t \<Rightarrow> py_str (round_half_even (py_float t)) | Other c \<Rightarrow> [c]"
  let ?g = "\<lambda>tok. case tok of Number t \<Rightarrow> py_str (round_half_even (py_float t))
                            | Other c \<Rightarrow> if is_space c then [] else [c]"
  have "filter (\<lambda>c. \<not> is_space c) out = filter (\<lambda>c. \<not> is_space c) d"
    by (simp only: out filter_add_space)
  also have "d = concat (map ?f (path_tokens s))"
    using d by (rule round_path_data_tokens)
  also have "filter (\<lambda>c. \<not> is_space c) (concat (map ?f (path_tokens s)))
      = concat (map (\<lambda>tok. filter (\<lambda>c. \<not> is_space c) (?f tok)) (path_tokens s))"
    by (simp add: filter_concat comp_def)
  also have "(\<lambda>tok. filter (\<lambda>c. \<not> is_space c) (?f tok)) = ?g"
    by (rule ext) (simp add: py_str_no_space split: token.splits)
  finally show ?thesis
    using path_tokens_text by simp
qed

theorem canonicalize_keeps_other_characters_witness:
  "canonicalize ''M10.6,20.4C30,40,50,60,70.49,80'' = Inr ''M 11,20 C 30,40,50,60,70,80''
   \<and> filter (\<lambda>c. \<not> is_space c) ''M 11,20 C 30,40,50,60,70,80'' =
        concat (map (\<lambda>tok. case tok of
                              Number t \<Rightarrow> py_str (round_half_even (py_float t))
                            | Other c \<Rightarrow> if is_space c then [] else [c])
                    (path_tokens ''M10.6,20.4C30,40,50,60,70.49,80''))"
  by (intro conjI) (rule scenario_D_value,
      rule conjunct2 [OF canonicalize_keeps_other_characters [OF scenario_D_value]])

section \<open>Idempotence of canonicalization\<close>

subsection \<open>Spacing keeps the runs of number characters\<close>

lemma flush_Nil [simp]: "flush [] = []"
  by (simp add: flush_def)

lemma flush_nonempty: "cur \<noteq> [] \<Longrightarrow> flush cur = [cur]"
  by (simp add: flush_def)

lemma number_runs_from_split:
  "number_runs_from cur s =
     flush (cur @ takeWhile is_number_char s) @ number_runs_from [] (dropWhile is_number_char s)"
  by (induction s arbitrary: cur) simp_all

lemma replace_runs_from_split:
  "replace_runs_from f cur s =
     concat (map f (flush (cur @ takeWhile is_number_char s)))
       @ replace_runs_from f [] (dropWhile is_number_char s)"
  by (induction s arbitrary: cur) simp_all

lemma number_runs_from_others:
  "(\<forall>c \<in> set ys. \<not> is_number_char c) \<Longrightarrow> number_runs_from cur ys = flush cur"
proof (induction ys arbitrary: cur)
  case Nil
  then show ?case by simp
next
  case (Cons y ys)
  then have "number_runs_from [] ys = flush []" by simp
  with Cons.prems show ?case by simp
qed

lemma number_runs_from_append_others:
  "(\<forall>c \<in> set ys. \<not> is_number_char c) \<Longrightarrow>
   number_runs_from cur (xs @ ys) = number_runs_from cur xs"
  by (induction xs arbitrary: cur) (simp_all add: number_runs_from_others)

lemma number_runs_from_numbers:
  "(\<forall>c \<in> set xs. is_number_char c) \<Longrightarrow>
   number_runs_from cur (xs @ s) = number_runs_from (cur @ xs) s"
  by (induction xs arbitrary: cur) simp_all

lemma space_not_number: "is_space c \<Longrightarrow> \<not> is_number_char c"
  by (auto simp: is_space_def is_number_char_def is_digit_def)

lemma cmd_not_number: "is_cmd c \<Longrightarrow> \<not> is_number_char c"
  by (auto simp: is_cmd_def is_number_char_def is_digit_def)

lemma blank_not_number [simp]: "\<not> is_number_char CHR '' ''"
  by (simp add: space_not_number)

lemma runs_space_before_cmd:
  "number_runs_from cur (space_before_cmd p s) = number_runs_from cur s"
  by (induction s arbitrary: cur p) (simp_all add: cmd_not_number)

lemma runs_space_after_cmd:
  "number_runs_from cur (space_after_cmd s) = number_runs_from cur s"
  by (induction s arbitrary: cur rule: space_after_cmd.induct) (simp_all add: cmd_not_number)

lemma runs_dropWhile_space:
  "number_runs_from [] (dropWhile is_space s) = number_runs_from [] s"
  by (induction s) (simp_all add: space_not_number)

lemma runs_collapse_spaces:
  "number_runs_from cur (collapse_spaces s) = number_runs_from cur s"
proof (induction s arbitrary: cur rule: collapse_spaces.induct)
  case 1
  then show ?case by simp
next
  case (2 c cs)
  show ?case
  proof (cases "is_space c")
    case True
    then show ?thesis
      using "2.IH"(1) [of "[]"] by (simp add: space_not_number runs_dropWhile_space)
  next
    case False
    then show ?thesis
      using "2.IH"(2) by simp
  qed
qed

lemma runs_strip: "number_runs_from [] (strip s) = number_runs_from [] s"
proof -
  let ?t = "dropWhile is_space s"
  have t: "?t = strip s @ rev (takeWhile is_space (rev ?t))"
    unfolding strip_def by (metis rev_append rev_rev_ident takeWhile_dropWhile_id)
  have "\<forall>c \<in> set (rev (takeWhile is_space (rev ?t))). \<not> is_number_char c"
    using space_not_number by (auto dest: set_takeWhileD)
  then have "number_runs_from [] (strip s @ rev (takeWhile is_space (rev ?t)))
      = number_runs_from [] (strip s)"
    by (rule number_runs_from_append_others)
  then have "number_runs_from [] ?t = number_runs_from [] (strip s)"
    using t by simp
  then show ?thesis
    by (simp add: runs_dropWhile_space)
qed

lemma runs_add_space: "number_runs (add_space_around_commands s) = number_runs s"
  by (simp add: number_runs_def add_space_around_commands_def runs_strip runs_collapse_spaces
      runs_space_after_cmd runs_space_before_cmd)

subsection \<open>Spacing a spaced text changes nothing\<close>

lemma space_before_cmd_fixed:
  "no_pair is_digit is_cmd s \<Longrightarrow> (p \<longrightarrow> s = [] \<or> \<not> is_cmd (hd s)) \<Longrightarrow>
   space_before_cmd p s = s"
proof (induction s arbitrary: p)
  case Nil
  then show ?case by simp
next
  case (Cons c cs)
  have "no_pair is_digit is_cmd cs"
    using Cons.prems(1) by (rule no_pair_tail)
  moreover have "is_digit c \<longrightarrow> cs = [] \<or> \<not> is_cmd (hd cs)"
    using Cons.prems(1) by (cases cs) simp_all
  ultimately have "space_before_cmd (is_digit c) cs = cs"
    by (rule Cons.IH)
  with Cons.prems(2) show ?case by simp
qed

lemma space_after_cmd_fixed: "no_pair is_cmd is_digit s \<Longrightarrow> space_after_cmd s = s"
  by (induction s rule: space_after_cmd.induct) simp_all

lemma collapse_spaces_fixed:
  "(\<forall>c \<in> set s. is_space c \<longrightarrow> c = CHR '' '') \<Longrightarrow> no_pair is_space is_space s \<Longrightarrow>
   collapse_spaces s = s"
proof (induction s rule: collapse_spaces.induct)
  case 1
  then show ?case by simp
next
  case (2 c cs)
  have tl: "no_pair is_space is_space cs"
    using "2.prems"(2) by (rule no_pair_tail)
  show ?case
  proof (cases "is_space c")
    case True
    have d: "dropWhile is_space cs = cs"
      using "2.prems"(2) True by (cases cs) simp_all
    have "collapse_spaces (dropWhile is_space cs) = dropWhile is_space cs"
      using "2.IH"(1) [OF True] "2.prems"(1) tl unfolding d by simp
    then show ?thesis
      using True "2.prems"(1) d by simp
  next
    case False
    then show ?thesis
      using "2.IH"(2) "2.prems"(1) tl by simp
  qed
qed

lemma hd_dropWhile_space: "dropWhile is_space s \<noteq> [] \<Longrightarrow> \<not> is_space (hd (dropWhile is_space s))"
  by (rule hd_dropWhile)

lemma collapse_spaces_Nil_iff: "collapse_spaces s = [] \<longleftrightarrow> s = []"
  by (cases s) simp_all

lemma collapse_spaces_single: "no_pair is_space is_space (collapse_spaces s)"
proof (induction s rule: collapse_spaces.induct)
  case 1
  then show ?case by simp
next
  case (2 c cs)
  show ?case
  proof (cases "is_space c")
    case True
    let ?d = "dropWhile is_space cs"
    show ?thesis
    proof (cases ?d)
      case Nil
      then have "collapse_spaces (c # cs) = [CHR '' '']"
        using True by (simp del: dropWhile_eq_Nil_conv)
      then show ?thesis by simp
    next
      case (Cons b bs)
      have nb: "\<not> is_space b"
        using hd_dropWhile_space [of cs] Cons by simp
      obtain r where r: "collapse_spaces (b # bs) = (if is_space b then CHR '' '' else b) # r"
        using collapse_spaces_hd by blast
      show ?thesis
        using True "2.IH"(1) [OF True] Cons r nb by simp
    qed
  next
    case False
    show ?thesis
    proof (cases cs)
      case Nil
      with False show ?thesis by simp
    next
      case (Cons b bs)
      obtain r where r: "collapse_spaces (b # bs) = (if is_space b then CHR '' '' else b) # r"
        using collapse_spaces_hd by blast
      show ?thesis
        using False "2.IH"(2) [OF False] Cons r by simp
    qed
  qed
qed

lemma trailing_strip_keeps_start:
  assumes "xs = [] \<or> \<not> P (hd xs)"
  shows "rev (dropWhile P (rev xs)) = [] \<or> \<not> P (hd (rev (dropWhile P (rev xs))))"
proof (cases "rev (dropWhile P (rev xs)) = []")
  case True
  then show ?thesis by blast
next
  case False
  let ?w = "rev (dropWhile P (rev xs))"
  have x: "xs = ?w @ rev (takeWhile P (rev xs))"
    by (metis rev_append rev_rev_ident takeWhile_dropWhile_id)
  then have "hd xs = hd ?w"
    using False by (metis hd_append2)
  moreover have "xs \<noteq> []"
    using x False by (metis append_is_Nil_conv)
  ultimately show ?thesis
    using assms by simp
qed

lemma strip_start: "dropWhile is_space (strip s) = strip s"
proof -
  have "dropWhile is_space s = [] \<or> \<not> is_space (hd (dropWhile is_space s))"
    using hd_dropWhile_space by blast
  then have "strip s = [] \<or> \<not> is_space (hd (strip s))"
    unfolding strip_def by (rule trailing_strip_keeps_start)
  then show ?thesis
    by (cases "strip s") auto
qed

lemma strip_strip: "strip (strip s) = strip s"
proof -
  have "strip (strip s) = rev (dropWhile is_space (rev (strip s)))"
    by (simp add: strip_def [of "strip s"] strip_start)
  also have "\<dots> = strip s"
    by (simp add: strip_def)
  finally show ?thesis .
qed

lemma add_space_idempotent:
  "add_space_around_commands (add_space_around_commands s) = add_space_around_commands s"
proof -
  let ?v = "add_space_around_commands s"
  have 1: "space_before_cmd False ?v = ?v"
    by (rule space_before_cmd_fixed [OF add_space_no_pairs(1)]) simp
  have 2: "space_after_cmd ?v = ?v"
    by (rule space_after_cmd_fixed [OF add_space_no_pairs(2)])
  have "no_pair is_space is_space ?v"
    unfolding add_space_around_commands_def by (intro strip_keeps collapse_spaces_single)
  moreover have "\<forall>c \<in> set ?v. is_space c \<longrightarrow> c = CHR '' ''"
    using add_space_blank by blast
  ultimately have 3: "collapse_spaces ?v = ?v"
    by (intro collapse_spaces_fixed)
  have 4: "strip ?v = ?v"
    unfolding add_space_around_commands_def by (rule strip_strip)
  show ?thesis
    by (subst (1) add_space_around_commands_def) (simp only: 1 2 3 4)
qed

subsection \<open>Rounding a well-separated text\<close>

lemma digit_is_number_char: "is_digit c \<Longrightarrow> is_number_char c"
  by (simp add: is_number_char_def)

lemma match_number_other: "\<not> is_number_char c \<Longrightarrow> match_number (c # cs) = None"
  by (auto simp: match_number_def split_sign_def is_number_char_def)

lemma takeWhile_append_stop:
  assumes "r = [] \<or> \<not> P (hd r)"
  shows "takeWhile P (x @ r) = takeWhile P x" and "dropWhile P (x @ r) = dropWhile P x @ r"
proof -
  have r: "takeWhile P r = []" "dropWhile P r = r"
    using assms by (cases r; simp)+
  show "takeWhile P (x @ r) = takeWhile P x"
    by (induction x) (simp_all add: r)
  show "dropWhile P (x @ r) = dropWhile P x @ r"
    by (induction x) (simp_all add: r)
qed

lemma split_sign_append:
  assumes "split_sign g t = (a, t')" and "r = [] \<or> hd r \<notin> set g"
  shows "split_sign g (t @ r) = (a, t' @ r)"
proof (cases t)
  case Nil
  with assms show ?thesis
    by (cases r) (auto simp: split_sign_def)
next
  case (Cons c cs)
  with assms(1) show ?thesis
    by (auto simp: split_sign_def split: if_splits)
qed

lemma split_exponent_append:
  assumes "split_exponent x = (ex, x')" and "r = [] \<or> \<not> is_number_char (hd r)"
  shows "split_exponent (x @ r) = (ex, x' @ r)"
proof (cases x)
  case Nil
  with assms show ?thesis
    by (cases r) (auto simp: split_exponent_def is_number_char_def)
next
  case (Cons c y)
  show ?thesis
  proof (cases "c = CHR ''e''")
    case False
    with assms(1) Cons have e: "ex = []" "x' = c # y"
      by (auto simp: split_exponent_def)
    show ?thesis
      unfolding e Cons using False by (simp add: split_exponent_def)
  next
    case True
    obtain sg y' where sg: "split_sign ''-+'' y = (sg, y')" by force
    have "r = [] \<or> hd r \<notin> set ''-+''"
      using assms(2) by (auto simp: is_number_char_def)
    then have sg': "split_sign ''-+'' (y @ r) = (sg, y' @ r)"
      by (rule split_sign_append [OF sg])
    have "r = [] \<or> \<not> is_digit (hd r)"
      using assms(2) digit_is_number_char by blast
    then have tw: "takeWhile is_digit (y' @ r) = takeWhile is_digit y'"
      "dropWhile is_digit (y' @ r) = dropWhile is_digit y' @ r"
      by (rule takeWhile_append_stop)+
    show ?thesis
      using assms(1) Cons True sg sg' tw
      by (auto simp: split_exponent_def Let_def split: if_splits)
  qed
qed

lemma match_number_append:
  assumes "match_number t = Some (a, b)" and "r = [] \<or> \<not> is_number_char (hd r)"
  shows "match_number (t @ r) = Some (a, b @ r)"
proof -
  have nd: "r = [] \<or> \<not> is_digit (hd r)"
    using assms(2) digit_is_number_char by blast
  obtain sg r0 where s1: "split_sign ''-'' t = (sg, r0)" by force
  obtain dot r2 where s2: "split_dot (dropWhile is_digit r0) = (dot, r2)" by force
  obtain ex r4 where s3: "split_exponent (dropWhile is_digit r2) = (ex, r4)" by force
  have ne: "takeWhile is_digit r0 \<noteq> []" and b: "b = r4"
    and a: "a = sg @ takeWhile is_digit r0 @ dot @ takeWhile is_digit r2 @ ex"
    using assms(1) s1 s2 s3 by (auto simp: match_number_def Let_def split: if_splits)
  have "r = [] \<or> hd r \<notin> set ''-''"
    using assms(2) by (auto simp: is_number_char_def)
  then have t1: "split_sign ''-'' (t @ r) = (sg, r0 @ r)"
    by (rule split_sign_append [OF s1])
  have t2: "takeWhile is_digit (r0 @ r) = takeWhile is_digit r0"
    "dropWhile is_digit (r0 @ r) = dropWhile is_digit r0 @ r"
    using nd by (rule takeWhile_append_stop)+
  have "r = [] \<or> hd r \<notin> set ''.''"
    using assms(2) by (auto simp: is_number_char_def)
  then have t3: "split_dot (dropWhile is_digit r0 @ r) = (dot, r2 @ r)"
    using s2 unfolding split_dot_def by (intro split_sign_append)
  have t4: "takeWhile is_digit (r2 @ r) = takeWhile is_digit r2"
    "dropWhile is_digit (r2 @ r) = dropWhile is_digit r2 @ r"
    using nd by (rule takeWhile_append_stop)+
  have t5: "split_exponent (dropWhile is_digit r2 @ r) = (ex, r4 @ r)"
    using s3 assms(2) by (rule split_exponent_append)
  show ?thesis
    using ne by (simp add: match_number_def t1 t2 t3 t4 t5 a b)
qed

lemma replace_runs_same: "replace_runs_from (\<lambda>r. r) cur s = cur @ s"
  by (induction s arbitrary: cur) (simp_all add: flush_def)

lemma runs_of_numbers:
  "(\<forall>c \<in> set xs. is_number_char c) \<Longrightarrow> number_runs_from [] (xs @ s) = number_runs_from xs s"
  using number_runs_from_numbers [of xs "[]" s] by simp

lemma runs_replace:
  "(\<forall>r \<in> set (number_runs_from cur s). f r \<noteq> [] \<and> (\<forall>c \<in> set (f r). is_number_char c)) \<Longrightarrow>
   number_runs_from [] (replace_runs_from f cur s) = map f (number_runs_from cur s)"
proof (induction s arbitrary: cur)
  case Nil
  show ?case
  proof (cases "cur = []")
    case True
    then show ?thesis by simp
  next
    case False
    then have "f cur \<noteq> []" "\<forall>c \<in> set (f cur). is_number_char c"
      using Nil by (simp_all add: flush_def)
    then show ?thesis
      using False runs_of_numbers [of "f cur" "[]"] by (simp add: flush_def)
  qed
next
  case (Cons c cs)
  show ?case
  proof (cases "is_number_char c")
    case True
    with Cons show ?thesis by simp
  next
    case False
    have IH: "number_runs_from [] (replace_runs_from f [] cs) = map f (number_runs_from [] cs)"
      using Cons.prems False by (intro Cons.IH) auto
    show ?thesis
    proof (cases "cur = []")
      case True
      with False IH show ?thesis by simp
    next
      case cur: False
      then have "f cur \<noteq> []" "\<forall>c \<in> set (f cur). is_number_char c"
        using Cons.prems False by (simp_all add: flush_def)
      then show ?thesis
        using False cur IH runs_of_numbers [of "f cur" "c # replace_runs_from f [] cs"]
        by (simp add: flush_def)
    qed
  qed
qed

lemma round_path_data_runs:
  assumes "\<forall>r \<in> set (number_runs s). match_number r = Some (r, []) \<and> repl r = Inr (f r)"
  shows "round_path_data s = Inr (replace_runs_from f [] s)"
  using assms
proof (induction "length s" arbitrary: s rule: less_induct)
  case less
  show ?case
  proof (cases s)
    case Nil
    then show ?thesis by simp
  next
    case (Cons c cs)
    show ?thesis
    proof (cases "is_number_char c")
      case False
      have "\<forall>r \<in> set (number_runs cs). match_number r = Some (r, []) \<and> repl r = Inr (f r)"
        using less.prems Cons False by (simp add: number_runs_def)
      then have "round_path_data cs = Inr (replace_runs_from f [] cs)"
        using less.hyps [of cs] Cons by simp
      then show ?thesis
        using Cons False by (simp add: round_path_data.simps match_number_other)
    next
      case True
      let ?run = "takeWhile is_number_char s" and ?rest = "dropWhile is_number_char s"
      have run: "?run \<noteq> []"
        using Cons True by simp
      have s: "s = ?run @ ?rest"
        by simp
      have runs: "number_runs s = ?run # number_runs ?rest"
        using number_runs_from_split [of "[]" s] run by (simp add: number_runs_def flush_def)
      have stop: "?rest = [] \<or> \<not> is_number_char (hd ?rest)"
        using hd_dropWhile [of is_number_char s] by blast
      have m: "match_number ?run = Some (?run, [])" and r: "repl ?run = Inr (f ?run)"
        using less.prems runs by simp_all
      have "match_number (?run @ ?rest) = Some (?run, [] @ ?rest)"
        using m stop by (rule match_number_append)
      then have m': "match_number (c # cs) = Some (?run, ?rest)"
        using s Cons by simp
      have "length ?rest < length s"
        using run s by (metis length_append length_greater_0_conv less_add_same_cancel2)
      moreover have "\<forall>r \<in> set (number_runs ?rest). match_number r = Some (r, []) \<and> repl r = Inr (f r)"
        using less.prems runs by simp
      ultimately have IH: "round_path_data ?rest = Inr (replace_runs_from f [] ?rest)"
        by (rule less.hyps)
      have "replace_runs_from f [] s = f ?run @ replace_runs_from f [] ?rest"
        using replace_runs_from_split [of f "[]" s] run by (simp add: flush_def)
      then show ?thesis
        using m' r IH Cons by (simp add: round_path_data.simps)
    qed
  qed
qed

subsection \<open>Rounding a rounded text changes nothing\<close>

lemma digit_val_digit_char:
  assumes "d < 10"
  shows "digit_val (digit_char d) = d"
proof -
  have "[0..<10] = [0, 1, 2, 3, 4, 5, 6, 7, 8, 9::nat]"
    by code_simp
  moreover have "d \<in> set [0..<10]"
    using assms by simp
  ultimately have "d \<in> set [0, 1, 2, 3, 4, 5, 6, 7, 8, 9::nat]"
    by simp
  then have "d = 0 \<or> d = 1 \<or> d = 2 \<or> d = 3 \<or> d = 4 \<or> d = 5 \<or> d = 6 \<or> d = 7 \<or> d = 8
      \<or> d = 9"
    by simp
  then show ?thesis
    by (elim disjE) (simp_all add: digit_val_def digit_char_def)
qed

lemma digits_val_snoc: "digits_val (ds @ [c]) = 10 * digits_val ds + digit_val c"
  by (simp add: digits_val_def)

lemma digits_val_digits_of: "digits_val (digits_of n) = n"
proof (induction n rule: digits_of.induct)
  case (1 n)
  show ?case
  proof (cases "n < 10")
    case True
    then show ?thesis
      by (simp add: digits_val_def digit_val_digit_char digits_of.simps)
  next
    case False
    have "digits_val (digits_of n) = 10 * digits_val (digits_of (n div 10)) + digit_val (digit_char (n mod 10))"
      using False by (subst digits_of.simps) (simp add: digits_val_snoc)
    also have "\<dots> = 10 * (n div 10) + n mod 10"
      using False "1.IH" by (simp add: digit_val_digit_char)
    finally show ?thesis by simp
  qed
qed

lemma digits_of_nonempty: "digits_of n \<noteq> []"
  by (subst digits_of.simps) simp

lemma digits_of_digits: "c \<in> set (digits_of n) \<Longrightarrow> is_digit c"
  unfolding is_digit_def using digits_of_range by blast

lemma takeWhile_digits_of:
  "takeWhile is_digit (digits_of n) = digits_of n" "dropWhile is_digit (digits_of n) = []"
  using digits_of_digits by (simp_all add: takeWhile_eq_all_conv)

lemma split_sign_digits: "split_sign ''-'' (digits_of n) = ([], digits_of n)"
proof (cases "digits_of n")
  case Nil
  then show ?thesis by (simp add: digits_of_nonempty)
next
  case (Cons c cs)
  then have "is_digit c"
    using digits_of_digits [of c n] by simp
  then have "c \<noteq> CHR ''-''"
    by (auto simp: is_digit_def)
  with Cons show ?thesis
    by (simp add: split_sign_def)
qed

lemma split_Nil [simp]:
  "split_sign g [] = ([], [])" "split_dot [] = ([], [])" "split_exponent [] = ([], [])"
  by (simp_all add: split_sign_def split_dot_def split_exponent_def)

lemma split_sign_py_str:
  "split_sign ''-'' (py_str n) = (if n < 0 then ''-'' else [], digits_of (nat \<bar>n\<bar>))"
proof (cases "n < 0")
  case True
  then show ?thesis
    by (simp add: py_str_def split_sign_def)
next
  case False
  then show ?thesis
    by (simp add: py_str_def split_sign_digits)
qed

lemma py_str_parts: "(if n < 0 then ''-'' else []) @ digits_of (nat \<bar>n\<bar>) = py_str n"
  by (simp add: py_str_def)

lemma match_number_py_str: "match_number (py_str n) = Some (py_str n, [])"
proof -
  have "match_number (py_str n) = Some ((if n < 0 then ''-'' else []) @ digits_of (nat \<bar>n\<bar>), [])"
    unfolding match_number_def split_sign_py_str
    by (simp add: takeWhile_digits_of digits_of_nonempty)
  then show ?thesis
    by (simp only: py_str_parts)
qed

lemma decimal_value_py_str: "decimal_value (py_str n) = of_int n"
proof -
  have "decimal_value (py_str n)
      = (if n < 0 then - of_nat (digits_val (digits_of (nat \<bar>n\<bar>)))
         else of_nat (digits_val (digits_of (nat \<bar>n\<bar>))))"
    unfolding decimal_value_def split_sign_py_str
    by (simp add: takeWhile_digits_of)
  then show ?thesis
    by (simp add: digits_val_digits_of)
qed

lemma repl_py_str:
  assumes "fl (of_int n) = of_int n" and "\<not> is_inf (of_int n)"
  shows "repl (py_str n) = Inr (py_str n)"
  using assms by (simp add: repl_def py_float_def decimal_value_py_str py_round_def)

lemma number_char_py_str:
  assumes "c \<in> set (py_str n)"
  shows "is_number_char c"
proof -
  have "c \<in> set ''-0123456789''"
    using assms py_str_range by blast
  then have "c = CHR ''-'' \<or> is_digit c"
    by (simp add: is_digit_def)
  then show ?thesis
    by (auto simp: is_number_char_def)
qed

lemma py_str_nonempty: "py_str n \<noteq> []"
  by (simp add: py_str_def digits_of_nonempty)

lemma rounded_settled:
  assumes "\<not> is_inf (py_float r)"
  shows "repl r = Inr (py_str (round_half_even (py_float r)))"
    and "repl (py_str (round_half_even (py_float r))) = Inr (py_str (round_half_even (py_float r)))"
proof -
  let ?n = "round_half_even (py_float r)"
  show "repl r = Inr (py_str ?n)"
    using assms by (simp add: repl_def py_round_def)
  have 1: "fl (of_int ?n) = of_int ?n"
    unfolding py_float_def by (rule rhe_fl_representable)
  have "of_int ?n = py_float r \<or> \<bar>?n\<bar> \<le> 2 ^ 53"
    unfolding py_float_def by (rule rhe_fl_cases)
  then have 2: "\<not> is_inf (of_int ?n)"
  proof
    assume "of_int ?n = py_float r"
    with assms show ?thesis by simp
  next
    assume "\<bar>?n\<bar> \<le> 2 ^ 53"
    then have "\<bar>of_int ?n :: rat\<bar> \<le> 2 ^ 53"
      by (metis of_int_abs of_int_le_iff of_int_numeral of_int_power)
    also have "(2::rat) ^ 53 \<le> 2 ^ 106"
      by (rule power_increasing) simp_all
    finally show ?thesis
      by (rule not_inf_small)
  qed
  show "repl (py_str ?n) = Inr (py_str ?n)"
    using 1 2 by (rule repl_py_str)
qed

text \<open>
  C3, amended. On a well-separated text (every maximal run of digits, signs, points and
  \<open>e\<close> is one number of finite float value, so that two numbers never touch)
  canonicalization succeeds and is idempotent: canonicalizing the result gives the
  result again.
\<close>

theorem canonicalize_idempotent:
  assumes "well_separated s"
  shows "\<exists>c. canonicalize s = Inr c \<and> canonicalize c = Inr c"
proof -
  let ?out = "\<lambda>r. py_str (round_half_even (py_float r))"
  let ?u = "replace_runs_from ?out [] s"
  let ?c = "add_space_around_commands ?u"
  have good: "match_number r = Some (r, []) \<and> \<not> is_inf (py_float r)"
    if "r \<in> set (number_runs s)" for r
    using assms that by (simp add: well_separated_def list_all_iff)
  have "\<forall>r \<in> set (number_runs s). match_number r = Some (r, []) \<and> repl r = Inr (?out r)"
    using good rounded_settled(1) by blast
  then have u: "round_path_data s = Inr ?u"
    by (rule round_path_data_runs)
  then have c: "canonicalize s = Inr ?c"
    by (simp add: canonicalize_def)
  have "\<forall>r \<in> set (number_runs_from [] s). ?out r \<noteq> [] \<and> (\<forall>c \<in> set (?out r). is_number_char c)"
    using py_str_nonempty number_char_py_str by blast
  then have "number_runs ?u = map ?out (number_runs s)"
    unfolding number_runs_def by (rule runs_replace)
  then have runs: "number_runs ?c = map ?out (number_runs s)"
    by (simp only: runs_add_space)
  have "\<forall>r \<in> set (number_runs ?c). match_number r = Some (r, []) \<and> repl r = Inr ((\<lambda>r. r) r)"
  proof
    fix r'
    assume "r' \<in> set (number_runs ?c)"
    then obtain r where r: "r \<in> set (number_runs s)" and r': "r' = ?out r"
      unfolding runs by auto
    show "match_number r' = Some (r', []) \<and> repl r' = Inr ((\<lambda>r. r) r')"
      unfolding r' using match_number_py_str rounded_settled(2) good [OF r] by simp
  qed
  then have "round_path_data ?c = Inr (replace_runs_from (\<lambda>r. r) [] ?c)"
    by (rule round_path_data_runs)
  then have "round_path_data ?c = Inr ?c"
    by (simp only: replace_runs_same append_Nil)
  then have "canonicalize ?c = Inr ?c"
    by (simp add: canonicalize_def add_space_idempotent)
  with c show ?thesis by blast
qed

lemma finite_float: "\<bar>decimal_value r\<bar> \<le> 2 ^ 106 \<Longrightarrow> \<not> is_inf (py_float r)"
  unfolding py_float_def by (intro not_inf_small fl_abs_le_pow)

lemma well_separated_example: "well_separated ''M2.5,-7''"
proof -
  have runs: "number_runs ''M2.5,-7'' = [''2.5'', ''-7'']"
    by (simp add: number_runs_def is_number_char_def is_digit_def flush_def)
  have "match_number ''2.5'' = Some (''2.5'', [])" "match_number ''-7'' = Some (''-7'', [])"
    by (simp_all add: match_number_def split_sign_def split_dot_def split_exponent_def
        is_digit_def)
  moreover have "\<not> is_inf (py_float ''2.5'')" "\<not> is_inf (py_float ''-7'')"
    by (rule finite_float, simp add: number_defs)+
  ultimately show ?thesis
    by (simp add: well_separated_def runs)
qed

theorem canonicalize_idempotent_witness:
  "well_separated ''M2.5,-7''
   \<and> (\<exists>c. canonicalize ''M2.5,-7'' = Inr c \<and> canonicalize c = Inr c)"
  using canonicalize_idempotent [OF well_separated_example] well_separated_example by blast

section \<open>File names\<close>

lemma hex_digit_val_hex_char:
  assumes "d < 16"
  shows "hex_digit_val (hex_char d) = d"
proof -
  have "[0..<16] = [0, 1, 2, 3, 4, 5, 6, 7, 8, 9, 10, 11, 12, 13, 14, 15::nat]"
    by code_simp
  moreover have "d \<in> set [0..<16]"
    using assms by simp
  ultimately have "d \<in> set [0, 1, 2, 3, 4, 5, 6, 7, 8, 9, 10, 11, 12, 13, 14, 15::nat]"
    by simp
  then have "d = 0 \<or> d = 1 \<or> d = 2 \<or> d = 3 \<or> d = 4 \<or> d = 5 \<or> d = 6 \<or> d = 7 \<or> d = 8
      \<or> d = 9 \<or> d = 10 \<or> d = 11 \<or> d = 12 \<or> d = 13 \<or> d = 14 \<or> d = 15"
    by simp
  then show ?thesis
    by (elim disjE) (simp_all add: hex_digit_val_def hex_char_def is_digit_def)
qed

lemma hex_char_range: "d < 16 \<Longrightarrow> hex_char d \<in> set ''0123456789ABCDEF''"
  unfolding hex_char_def by (rule nth_mem) simp

lemma hex_val_snoc: "hex_val (ds @ [c]) = 16 * hex_val ds + hex_digit_val c"
  by (simp add: hex_val_def)

lemma hex_val_hex_of: "hex_val (hex_of n) = n"
proof (induction n rule: hex_of.induct)
  case (1 n)
  show ?case
  proof (cases "n < 16")
    case True
    then show ?thesis
      by (simp add: hex_val_def hex_digit_val_hex_char hex_of.simps)
  next
    case False
    have "hex_val (hex_of n) = 16 * hex_val (hex_of (n div 16)) + hex_digit_val (hex_char (n mod 16))"
      using False by (subst hex_of.simps) (simp add: hex_val_snoc)
    also have "\<dots> = 16 * (n div 16) + n mod 16"
      using False "1.IH" by (simp add: hex_digit_val_hex_char)
    finally show ?thesis by simp
  qed
qed

lemma hex_of_range: "set (hex_of n) \<subseteq> set ''0123456789ABCDEF''"
proof (induction n rule: hex_of.induct)
  case (1 n)
  show ?case
  proof (cases "n < 16")
    case True
    then show ?thesis
      using hex_char_range [of n] by (subst hex_of.simps) simp
  next
    case False
    then show ?thesis
      using "1.IH" hex_char_range [of "n mod 16"] by (subst hex_of.simps) simp
  qed
qed

lemma hex_val_zeros: "hex_val (replicate k CHR ''0'' @ ds) = hex_val ds"
proof -
  have "foldl (\<lambda>n c. 16 * n + hex_digit_val c) 0 (replicate k CHR ''0'') = 0"
    by (induction k) (simp_all add: hex_digit_val_def is_digit_def)
  then show ?thesis by (simp add: hex_val_def)
qed

lemma format_04X_props:
  "4 \<le> length (format_04X cp)" "set (format_04X cp) \<subseteq> set ''0123456789ABCDEF''"
  "hex_val (format_04X cp) = cp"
proof -
  show "4 \<le> length (format_04X cp)"
    by (simp add: format_04X_def Let_def)
  show "set (format_04X cp) \<subseteq> set ''0123456789ABCDEF''"
    using hex_of_range [of cp] by (auto simp: format_04X_def Let_def)
  show "hex_val (format_04X cp) = cp"
    by (simp add: format_04X_def Let_def hex_val_zeros hex_val_hex_of)
qed

lemma hex_digit_not_bad:
  assumes "c \<in> set ''0123456789ABCDEF''"
  shows "of_char c \<notin> set bad_chars"
proof -
  have "c = CHR ''0'' \<or> c = CHR ''1'' \<or> c = CHR ''2''
      \<or> c = CHR ''3'' \<or> c = CHR ''4'' \<or> c = CHR ''5'' \<or> c = CHR ''6'' \<or> c = CHR ''7''
      \<or> c = CHR ''8'' \<or> c = CHR ''9'' \<or> c = CHR ''A'' \<or> c = CHR ''B'' \<or> c = CHR ''C''
      \<or> c = CHR ''D'' \<or> c = CHR ''E'' \<or> c = CHR ''F''"
    using assms by simp
  then show ?thesis
    by (elim disjE) (simp_all add: bad_chars_def)
qed

lemma escaped_not_bad:
  assumes "c \<in> set (''U+'' @ format_04X cp)"
  shows "of_char c \<notin> set bad_chars"
proof -
  have "c = CHR ''U'' \<or> c = CHR ''+'' \<or> c \<in> set (format_04X cp)"
    using assms by simp
  then consider "c = CHR ''U''" | "c = CHR ''+''" | "c \<in> set ''0123456789ABCDEF''"
    using format_04X_props(2) [of cp] by blast
  then show ?thesis
  proof cases
    case 1
    then show ?thesis by (simp add: bad_chars_def)
  next
    case 2
    then show ?thesis by (simp add: bad_chars_def)
  next
    case 3
    then show ?thesis by (rule hex_digit_not_bad)
  qed
qed



end
